theory Spec2Isabelle
  imports Main
begin

section \<open>Values of the host language\<close>

text \<open>
  The library is a TypeScript class \<^verbatim>\<open>PinkyPromise\<close>. Its code inspects a settlement
  candidate in four ways only: identity with a promise (\<^verbatim>\<open>Object.is\<close>), membership of
  the class (\<^verbatim>\<open>instanceof\<close>), truthiness together with \<^verbatim>\<open>typeof\<close>, and the member
  \<^verbatim>\<open>then\<close>. A value is therefore a primitive, a reference to an instance of the class
  (an address of the heap below), or a foreign object or function that carries an identity tag
  and what reading and calling its \<^verbatim>\<open>then\<close> member does. The member shown in a value is
  the one the object has when the value is read: line 167 reads it each time \<^verbatim>\<open>#unpack\<close>
  runs, and user code may have assigned to it since the value was stored (the assignment is
  an operation of its own, below).

  A foreign \<^verbatim>\<open>then\<close> and a user's executor are given by the finite script of what they do
  with the two functions they receive: call the first, call the second, throw, or set
  something up that continues later (a timer). Scripts are finite trees, so an object whose
  \<^verbatim>\<open>then\<close> hands the object itself to its callback is outside the model.
\<close>

datatype jstype = TObject | TFunction

datatype val =
    Undefined
  | Null
  | Bool bool
  | Num int
  | Str string
  | TypeError string
  | PromiseRef nat
  | Obj jstype nat then_member
and then_member =
    ThenAbsent
  | ThenNotCallable
  | ThenGetterThrows val
  | ThenFn "action list"
and action =
    CallResolve val
  | CallReject val
  | Throw val
  | Later "action list"

text \<open>What a user callback does with its argument: it returns or it throws.\<close>

datatype outcome = Return val | Raise val

text \<open>
  The functions that \<^verbatim>\<open>then\<close> receives. \<open>CbUnpack p\<close> and \<open>CbTransReject p\<close> are the two
  arrow functions of lines 147-152 of the source; \<open>CbUser f\<close> is a function of the caller.
\<close>

datatype callback = CbUnpack nat | CbTransReject nat | CbUser "val \<Rightarrow> outcome"

text \<open>An argument of \<^verbatim>\<open>then\<close>: \<^verbatim>\<open>typeof\<close> says \<^verbatim>\<open>"function"\<close> or it does not.\<close>

datatype handler = NonFunction val | Function callback

text \<open>
  The entries of the two listener arrays: the closure around \<^verbatim>\<open>#run\<close> (lines 266-269 and
  275-278) or the \<^verbatim>\<open>resolve\<close> and \<^verbatim>\<open>reject\<close> functions of the derived promise
  (lines 271 and 280).
\<close>

datatype listener = LRun nat callback | LResolve nat | LReject nat

datatype pstate = Pending | Fulfilled val | Rejected val

record promise =
  state :: pstate
  fulfilledListeners :: "listener list"
  rejectedListeners :: "listener list"

datatype kind = KFulfilled | KRejected

text \<open>
  A microtask is the closure \<^verbatim>\<open>() => listener(this.#state.value)\<close> of lines 86-88 (or
  94-98): it holds the promise, which field it will read, and the listener.
\<close>

datatype task = Task nat kind listener

text \<open>
  The pair of functions handed to a script: the latch-guarded closures of lines 178-192
  (the latch and the promise they close over), or the promise's own \<^verbatim>\<open>#resolve\<close> and
  \<^verbatim>\<open>#reject\<close> that the constructor passes to the executor.
\<close>

datatype fnpair = Latched nat nat | Own nat

datatype timer = Timer fnpair "action list"

text \<open>
  An observation log, written and never read by the operations: which executor was called,
  which listener was appended to which array, which listener was invoked with which argument.
\<close>

datatype event =
    ExecutorCalled nat
  | Attached nat kind listener
  | Invoked nat kind listener val

record world =
  heap :: "nat \<Rightarrow> promise"
  next_id :: nat
  microtasks :: "task list"
  called :: "nat \<Rightarrow> bool"
  next_latch :: nat
  timers :: "timer list"
  trace :: "event list"

definition fresh_promise :: promise where
  "fresh_promise = \<lparr>state = Pending, fulfilledListeners = [], rejectedListeners = []\<rparr>"

definition init_world :: world where
  "init_world = \<lparr>heap = (\<lambda>_. fresh_promise), next_id = 0, microtasks = [],
     called = (\<lambda>_. False), next_latch = 0, timers = [], trace = []\<rparr>"

section \<open>The state cell, the notifier and the transition\<close>

definition status :: "world \<Rightarrow> nat \<Rightarrow> pstate" where
  "status s p = state (heap s p)"

definition set_state :: "world \<Rightarrow> nat \<Rightarrow> pstate \<Rightarrow> world" where
  "set_state s p st = s\<lparr>heap := (heap s)(p := (heap s p)\<lparr>state := st\<rparr>)\<rparr>"

definition queueMicrotask :: "task \<Rightarrow> world \<Rightarrow> world" where
  "queueMicrotask t s = s\<lparr>microtasks := microtasks s @ [t]\<rparr>"

definition log_event :: "event \<Rightarrow> world \<Rightarrow> world" where
  "log_event e s = s\<lparr>trace := trace s @ [e]\<rparr>"

text \<open>\<^verbatim>\<open>forEach\<close> over a listener array, queueing one microtask per entry, in order.\<close>

fun schedule :: "nat \<Rightarrow> kind \<Rightarrow> listener list \<Rightarrow> world \<Rightarrow> world" where
  "schedule p k [] s = s"
| "schedule p k (l # ls) s = schedule p k ls (queueMicrotask (Task p k l) s)"

text \<open>Lines 104-107: both arrays are emptied with \<^verbatim>\<open>splice\<close>.\<close>

definition splice_all :: "nat \<Rightarrow> world \<Rightarrow> world" where
  "splice_all p s =
     s\<lparr>heap := (heap s)(p := (heap s p)\<lparr>fulfilledListeners := [], rejectedListeners := []\<rparr>)\<rparr>"

definition notify :: "world \<Rightarrow> nat \<Rightarrow> world" where
  "notify s p =
     (case status s p of
        Pending \<Rightarrow> s
      | Fulfilled _ \<Rightarrow> splice_all p (schedule p KFulfilled (fulfilledListeners (heap s p)) s)
      | Rejected _ \<Rightarrow> splice_all p (schedule p KRejected (rejectedListeners (heap s p)) s))"

definition transition :: "world \<Rightarrow> nat \<Rightarrow> pstate \<Rightarrow> world" where
  "transition s p st =
     (if status s p = Pending then notify (set_state s p st) p else s)"

section \<open>The constructor and the chaining operator\<close>

text \<open>
  The executor argument of the constructor: a function, given by its body, or something that
  is not a function, given by what converting it to a string does. Line 67 builds the message
  of the \<^verbatim>\<open>TypeError\<close> with \<^verbatim>\<open>${executor}\<close>, which runs the conversion code of the
  argument (\<^verbatim>\<open>toString\<close>, \<^verbatim>\<open>valueOf\<close>, \<^verbatim>\<open>Symbol.toPrimitive\<close>): the conversion yields a
  text, or it throws, and then what it throws leaves the constructor before a
  \<^verbatim>\<open>TypeError\<close> is made.
\<close>

datatype conversion = Shown string | ConversionThrows val

datatype 'b executor = NotAFunction conversion | ExecutorFn 'b

fun not_a_function :: "conversion \<Rightarrow> val" where
  "not_a_function (Shown shown) = TypeError (shown @ '' is not a function'')"
| "not_a_function (ConversionThrows e) = e"

definition alloc :: "world \<Rightarrow> nat \<times> world" where
  "alloc s = (next_id s, s\<lparr>heap := (heap s)(next_id s := fresh_promise), next_id := Suc (next_id s)\<rparr>)"

definition reject_fn :: "world \<Rightarrow> nat \<Rightarrow> val \<Rightarrow> world" where
  "reject_fn s this reason = transition s this (Rejected reason)"

text \<open>
  Lines 65-75. The body of an executor takes the address of the new promise (through which
  it reaches \<^verbatim>\<open>#resolve\<close> and \<^verbatim>\<open>#reject\<close>) and the world, and returns the world
  with the value it threw, if it threw.
\<close>

definition construct ::
  "(nat \<Rightarrow> world \<Rightarrow> world \<times> val option) executor \<Rightarrow> world \<Rightarrow> val + nat \<times> world" where
  "construct executor s =
     (case executor of
        NotAFunction conv \<Rightarrow> Inl (not_a_function conv)
      | ExecutorFn body \<Rightarrow>
          (let (this, s1) = alloc s;
               (s2, thrown) = body this (log_event (ExecutorCalled this) s1)
           in Inr (this,
                case thrown of
                  None \<Rightarrow> s2
                | Some executorError \<Rightarrow> reject_fn s2 this executorError)))"

definition push_fulfilled :: "nat \<Rightarrow> listener \<Rightarrow> world \<Rightarrow> world" where
  "push_fulfilled p l s =
     log_event (Attached p KFulfilled l)
       (s\<lparr>heap := (heap s)(p := (heap s p)\<lparr>fulfilledListeners := fulfilledListeners (heap s p) @ [l]\<rparr>)\<rparr>)"

definition push_rejected :: "nat \<Rightarrow> listener \<Rightarrow> world \<Rightarrow> world" where
  "push_rejected p l s =
     log_event (Attached p KRejected l)
       (s\<lparr>heap := (heap s)(p := (heap s p)\<lparr>rejectedListeners := rejectedListeners (heap s p) @ [l]\<rparr>)\<rparr>)"

text \<open>
  Lines 252-287. What goes into the two arrays are lines 265-272 and 274-281; the executor
  is an arrow function, and its body does not throw.
\<close>

fun fulfilled_listener :: "nat \<Rightarrow> handler \<Rightarrow> listener" where
  "fulfilled_listener output (Function onfulfilled) = LRun output onfulfilled"
| "fulfilled_listener output (NonFunction _) = LResolve output"

fun rejected_listener :: "nat \<Rightarrow> handler \<Rightarrow> listener" where
  "rejected_listener output (Function onrejected) = LRun output onrejected"
| "rejected_listener output (NonFunction _) = LReject output"

definition then_executor :: "nat \<Rightarrow> handler \<Rightarrow> handler \<Rightarrow> nat \<Rightarrow> world \<Rightarrow> world \<times> val option" where
  "then_executor that onfulfilled onrejected output s =
     (let s1 = push_fulfilled that (fulfilled_listener output onfulfilled) s;
          s2 = push_rejected that (rejected_listener output onrejected) s1
      in (notify s2 that, None))"

definition then_op :: "world \<Rightarrow> nat \<Rightarrow> handler \<Rightarrow> handler \<Rightarrow> val + nat \<times> world" where
  "then_op s that onfulfilled onrejected =
     construct (ExecutorFn (then_executor that onfulfilled onrejected)) s"

definition catch_op :: "world \<Rightarrow> nat \<Rightarrow> handler \<Rightarrow> val + nat \<times> world" where
  "catch_op s this onrejected = then_op s this (NonFunction Undefined) onrejected"

section \<open>The resolution procedure\<close>

definition cycle_error :: val where
  "cycle_error = TypeError ''Chaining cycle detected for promise''"

definition new_latch :: "world \<Rightarrow> nat \<times> world" where
  "new_latch s = (next_latch s, s\<lparr>called := (called s)(next_latch s := False), next_latch := Suc (next_latch s)\<rparr>)"

definition set_called :: "nat \<Rightarrow> world \<Rightarrow> world" where
  "set_called l s = s\<lparr>called := (called s)(l := True)\<rparr>"

definition setTimeout :: "timer \<Rightarrow> world \<Rightarrow> world" where
  "setTimeout t s = s\<lparr>timers := timers s @ [t]\<rparr>"

text \<open>
  The second function handed to a script: lines 184-191 for a foreign \<^verbatim>\<open>then\<close>, lines
  247-250 for an executor.
\<close>

definition call_reject :: "world \<Rightarrow> fnpair \<Rightarrow> val \<Rightarrow> world" where
  "call_reject s fns reason =
     (case fns of
        Latched latch p \<Rightarrow>
          if \<not> called s latch then transition (set_called latch s) p (Rejected reason) else s
      | Own p \<Rightarrow> reject_fn s p reason)"

text \<open>
  Lines 130-211, with the first function handed to a script (lines 178-183 for a foreign
  \<^verbatim>\<open>then\<close>, lines 239-242 for an executor) and the run of a script. The run of a
  script returns the value it threw, if it threw; a \<open>Later\<close> part goes to the host
  with the functions it closes over.
\<close>

fun unpack :: "world \<Rightarrow> nat \<Rightarrow> val \<Rightarrow> world"
and call_resolve :: "world \<Rightarrow> fnpair \<Rightarrow> val \<Rightarrow> world"
and run_actions :: "world \<Rightarrow> fnpair \<Rightarrow> action list \<Rightarrow> world \<times> val option" where
  "unpack s pinkyPromise v =
    (if status s pinkyPromise \<noteq> Pending then s
     else if v = PromiseRef pinkyPromise then
       transition s pinkyPromise (Rejected cycle_error)
     else case v of
       PromiseRef q \<Rightarrow>
         (case then_op s q (Function (CbUnpack pinkyPromise)) (Function (CbTransReject pinkyPromise)) of
            Inr (_, s') \<Rightarrow> s'
          | Inl reason \<Rightarrow> transition s pinkyPromise (Rejected reason))
     | Obj _ _ (ThenGetterThrows reason) \<Rightarrow> transition s pinkyPromise (Rejected reason)
     | Obj _ _ (ThenFn acts) \<Rightarrow>
         (let (latch, s1) = new_latch s in
          case run_actions s1 (Latched latch pinkyPromise) acts of
            (s2, None) \<Rightarrow> s2
          | (s2, Some reason) \<Rightarrow>
              if \<not> called s2 latch
              then transition (set_called latch s2) pinkyPromise (Rejected reason)
              else s2)
     | _ \<Rightarrow> transition s pinkyPromise (Fulfilled v))"
| "call_resolve s (Latched latch p) v =
     (if \<not> called s latch then unpack (set_called latch s) p v else s)"
| "call_resolve s (Own p) v = unpack s p v"
| "run_actions s fns [] = (s, None)"
| "run_actions s fns (CallResolve v # rest) = run_actions (call_resolve s fns v) fns rest"
| "run_actions s fns (CallReject reason # rest) = run_actions (call_reject s fns reason) fns rest"
| "run_actions s fns (Throw e # rest) = (s, Some e)"
| "run_actions s fns (Later acts # rest) = run_actions (setTimeout (Timer fns acts) s) fns rest"

definition resolve_fn :: "world \<Rightarrow> nat \<Rightarrow> val \<Rightarrow> world" where
  "resolve_fn s this v = unpack s this v"

section \<open>Running a reaction\<close>

text \<open>Calling a function that was passed to \<^verbatim>\<open>then\<close>.\<close>

fun call_cb :: "world \<Rightarrow> callback \<Rightarrow> val \<Rightarrow> world \<times> outcome" where
  "call_cb s (CbUser f) v = (s, f v)"
| "call_cb s (CbUnpack p) v = (unpack s p v, Return Undefined)"
| "call_cb s (CbTransReject p) v = (transition s p (Rejected v), Return Undefined)"

text \<open>Lines 216-232.\<close>

definition run :: "world \<Rightarrow> val \<Rightarrow> nat \<Rightarrow> callback \<Rightarrow> world" where
  "run s v promise cb =
     (case call_cb s cb v of
        (s1, Raise reason) \<Rightarrow> transition s1 promise (Rejected reason)
      | (s1, Return resolvable) \<Rightarrow> unpack s1 promise resolvable)"

fun invoke :: "world \<Rightarrow> listener \<Rightarrow> val \<Rightarrow> world" where
  "invoke s (LRun output cb) v = run s v output cb"
| "invoke s (LResolve p) v = resolve_fn s p v"
| "invoke s (LReject p) v = reject_fn s p v"

text \<open>
  What a microtask reads when it runs: \<^verbatim>\<open>this.#state.value\<close> or
  \<^verbatim>\<open>this.#state.reason\<close>; a field the state does not have reads as \<^verbatim>\<open>undefined\<close>.
\<close>

fun payload :: "pstate \<Rightarrow> kind \<Rightarrow> val" where
  "payload (Fulfilled v) KFulfilled = v"
| "payload (Rejected r) KRejected = r"
| "payload _ _ = Undefined"

section \<open>The host: microtasks and timers\<close>

text \<open>The host takes the oldest microtask and runs it.\<close>

definition run_microtask :: "world \<Rightarrow> world" where
  "run_microtask s =
     (case microtasks s of
        [] \<Rightarrow> s
      | Task p k l # rest \<Rightarrow>
          (let v = payload (status s p) k
           in invoke (log_event (Invoked p k l v) (s\<lparr>microtasks := rest\<rparr>)) l v))"

fun run_microtasks :: "nat \<Rightarrow> world \<Rightarrow> world" where
  "run_microtasks 0 s = s"
| "run_microtasks (Suc n) s = run_microtasks n (run_microtask s)"

text \<open>
  The host fires the oldest timer: the rest of a script runs, and what it throws goes to the
  host, not to the library.
\<close>

definition run_timer :: "world \<Rightarrow> world" where
  "run_timer s =
     (case timers s of
        [] \<Rightarrow> s
      | Timer fns acts # rest \<Rightarrow> fst (run_actions (s\<lparr>timers := rest\<rparr>) fns acts))"

section \<open>The public operations\<close>

text \<open>\<^verbatim>\<open>new PinkyPromise(executor)\<close> with an executor of the caller.\<close>

definition new_promise :: "action list executor \<Rightarrow> world \<Rightarrow> val + nat \<times> world" where
  "new_promise executor s =
     construct (map_executor (\<lambda>acts this w. run_actions w (Own this) acts) executor) s"

text \<open>Lines 48-50 and 57-59: the two static factories.\<close>

definition promise_resolve :: "val \<Rightarrow> world \<Rightarrow> val + nat \<times> world" where
  "promise_resolve v s = construct (ExecutorFn (\<lambda>this w. (resolve_fn w this v, None))) s"

definition promise_reject :: "val \<Rightarrow> world \<Rightarrow> val + nat \<times> world" where
  "promise_reject reason s = construct (ExecutorFn (\<lambda>this w. (reject_fn w this reason, None))) s"

section \<open>User code that assigns to an object\<close>

text \<open>
  An object is known by its address, the number in \<open>Obj\<close>; the \<^verbatim>\<open>then\<close> member in a value
  is the one the object has when the value is read, and line 167 reads it when \<^verbatim>\<open>#unpack\<close>
  runs, not when the value was stored. User code can assign to the member of an object at
  any time (a getter that changes its answer does the same). From then on every reference
  to the object reads the new member: the one that is the value or reason of a promise, and
  those in the scripts that wait in timers (and those the log has recorded). The assignment is neither an operation of the
  class nor a step of the host: a world these lead to from the first one is a world in
  which no object was assigned to.
\<close>

fun assigned :: "nat \<Rightarrow> then_member \<Rightarrow> val \<Rightarrow> val"
and assigned_then :: "nat \<Rightarrow> then_member \<Rightarrow> then_member \<Rightarrow> then_member"
and assigned_action :: "nat \<Rightarrow> then_member \<Rightarrow> action \<Rightarrow> action" where
  "assigned i m (Obj t j mj) = (if j = i then Obj t j m else Obj t j (assigned_then i m mj))"
| "assigned i m (Undefined) = Undefined"
| "assigned i m (Null) = Null"
| "assigned i m (Bool b) = Bool b"
| "assigned i m (Num n) = Num n"
| "assigned i m (Str x) = Str x"
| "assigned i m (TypeError x) = TypeError x"
| "assigned i m (PromiseRef q) = PromiseRef q"
| "assigned_then i m (ThenGetterThrows e) = ThenGetterThrows (assigned i m e)"
| "assigned_then i m (ThenFn acts) = ThenFn (map (assigned_action i m) acts)"
| "assigned_then i m ThenAbsent = ThenAbsent"
| "assigned_then i m ThenNotCallable = ThenNotCallable"
| "assigned_action i m (CallResolve v) = CallResolve (assigned i m v)"
| "assigned_action i m (CallReject v) = CallReject (assigned i m v)"
| "assigned_action i m (Throw v) = Throw (assigned i m v)"
| "assigned_action i m (Later acts) = Later (map (assigned_action i m) acts)"

fun assigned_state :: "nat \<Rightarrow> then_member \<Rightarrow> pstate \<Rightarrow> pstate" where
  "assigned_state i m Pending = Pending"
| "assigned_state i m (Fulfilled v) = Fulfilled (assigned i m v)"
| "assigned_state i m (Rejected r) = Rejected (assigned i m r)"

fun assigned_timer :: "nat \<Rightarrow> then_member \<Rightarrow> timer \<Rightarrow> timer" where
  "assigned_timer i m (Timer fns acts) = Timer fns (map (assigned_action i m) acts)"

fun assigned_event :: "nat \<Rightarrow> then_member \<Rightarrow> event \<Rightarrow> event" where
  "assigned_event i m (Invoked p k l v) = Invoked p k l (assigned i m v)"
| "assigned_event i m (ExecutorCalled p) = ExecutorCalled p"
| "assigned_event i m (Attached p k l) = Attached p k l"

definition assign_then :: "nat \<Rightarrow> then_member \<Rightarrow> world \<Rightarrow> world" where
  "assign_then i m s =
     s\<lparr>heap := (\<lambda>p. (heap s p)\<lparr>state := assigned_state i m (state (heap s p))\<rparr>),
       timers := map (assigned_timer i m) (timers s),
       trace := map (assigned_event i m) (trace s)\<rparr>"


section \<open>The draft module\<close>

text \<open>
  \<^verbatim>\<open>src/lib/pinky-promise.ts\<close>. Lines 12-16: the state of a draft promise; a pending one
  has an optional \<^verbatim>\<open>thenable\<close> member, which nothing in the module sets. The draft class
  has no \<^verbatim>\<open>then\<close> method and never touches its two listener arrays, so a draft promise
  is its state.
\<close>

datatype dstate = DPending "val option" | DFulfilled val | DRejected val

record dworld =
  dheap :: "nat \<Rightarrow> dstate"
  dnext_id :: nat
  dtimers :: "(nat \<times> action list) list"

definition draft_init :: dworld where
  "draft_init = \<lparr>dheap = (\<lambda>_. DPending None), dnext_id = 0, dtimers = []\<rparr>"

text \<open>
  Lines 31-37. \<^verbatim>\<open>typeof value === "object"\<close> fails for a function before \<^verbatim>\<open>then\<close> is
  read; reading \<^verbatim>\<open>then\<close> of an object may throw; an instance of the draft class is an
  object without a \<^verbatim>\<open>then\<close>.
\<close>

fun isThenable :: "val \<Rightarrow> val + bool" where
  "isThenable (Obj TObject i (ThenGetterThrows e)) = Inl e"
| "isThenable (Obj TObject i (ThenFn acts)) = Inr True"
| "isThenable _ = Inr False"

text \<open>The guard of lines 96 and 113: \<^verbatim>\<open>status === "pending" && !this.#state.thenable\<close>.\<close>

definition draft_open :: "dworld \<Rightarrow> nat \<Rightarrow> bool" where
  "draft_open d this = (dheap d this = DPending None)"

definition draft_set :: "dworld \<Rightarrow> nat \<Rightarrow> dstate \<Rightarrow> dworld" where
  "draft_set d this st = d\<lparr>dheap := (dheap d)(this := st)\<rparr>"

text \<open>Lines 112-117.\<close>

definition draft_reject :: "dworld \<Rightarrow> nat \<Rightarrow> val \<Rightarrow> dworld" where
  "draft_reject d this reason =
     (if draft_open d this then draft_set d this (DRejected reason) else d)"

text \<open>
  Lines 95-110, and the run of the script of a thenable that was handed the two functions of
  the draft promise (line 103). Nothing catches here: what \<^verbatim>\<open>isThenable\<close>, the cycle test
  or the thenable throws leaves \<^verbatim>\<open>#resolve\<close>, and it ends a script that called
  \<^verbatim>\<open>#resolve\<close>. The result is the world with the value thrown, if one was.
\<close>

fun draft_resolve :: "dworld \<Rightarrow> nat \<Rightarrow> val \<Rightarrow> dworld \<times> val option"
and draft_run :: "dworld \<Rightarrow> nat \<Rightarrow> action list \<Rightarrow> dworld \<times> val option" where
  "draft_resolve d this v =
     (if draft_open d this then
        (case isThenable v of
           Inl e \<Rightarrow> (d, Some e)
         | Inr True \<Rightarrow>
             if v = PromiseRef this then (d, Some cycle_error)
             else (case v of
                     Obj _ _ (ThenFn acts) \<Rightarrow> draft_run d this acts
                   | _ \<Rightarrow> (d, None))
         | Inr False \<Rightarrow> (draft_set d this (DFulfilled v), None))
      else (d, None))"
| "draft_run d this [] = (d, None)"
| "draft_run d this (CallResolve v # rest) =
     (case draft_resolve d this v of
        (d', Some e) \<Rightarrow> (d', Some e)
      | (d', None) \<Rightarrow> draft_run d' this rest)"
| "draft_run d this (CallReject reason # rest) = draft_run (draft_reject d this reason) this rest"
| "draft_run d this (Throw e # rest) = (d, Some e)"
| "draft_run d this (Later acts # rest) =
     draft_run (d\<lparr>dtimers := dtimers d @ [(this, acts)]\<rparr>) this rest"

text \<open>Lines 75-85, the constructor, and lines 58-60 and 67-69, the two static factories.\<close>

definition draft_construct ::
  "(nat \<Rightarrow> dworld \<Rightarrow> dworld \<times> val option) executor \<Rightarrow> dworld \<Rightarrow> val + nat \<times> dworld" where
  "draft_construct executor d =
     (case executor of
        NotAFunction conv \<Rightarrow> Inl (not_a_function conv)
      | ExecutorFn body \<Rightarrow>
          (let this = dnext_id d;
               d1 = d\<lparr>dheap := (dheap d)(this := DPending None), dnext_id := Suc this\<rparr>;
               (d2, thrown) = body this d1
           in Inr (this,
                case thrown of
                  None \<Rightarrow> d2
                | Some executorError \<Rightarrow> draft_reject d2 this executorError)))"

definition draft_promise_resolve :: "val \<Rightarrow> dworld \<Rightarrow> val + nat \<times> dworld" where
  "draft_promise_resolve v d = draft_construct (ExecutorFn (\<lambda>this w. draft_resolve w this v)) d"

definition draft_promise_reject :: "val \<Rightarrow> dworld \<Rightarrow> val + nat \<times> dworld" where
  "draft_promise_reject reason d =
     draft_construct (ExecutorFn (\<lambda>this w. (draft_reject w this reason, None))) d"


section \<open>Notions the properties are stated with\<close>

text \<open>\<^verbatim>\<open>value instanceof PinkyPromise\<close>.\<close>

fun is_instance :: "val \<Rightarrow> bool" where
  "is_instance (PromiseRef _) = True"
| "is_instance _ = False"

text \<open>
  The \<^verbatim>\<open>then\<close> member that line 167 reads. Line 164 lets only objects and functions
  through, so nothing is read from a primitive.
\<close>

fun then_of :: "val \<Rightarrow> then_member" where
  "then_of (Obj _ _ m) = m"
| "then_of _ = ThenAbsent"

text \<open>
  Every value that occurs in a value: the value itself, what reading its \<^verbatim>\<open>then\<close>
  throws, and what its script passes or throws.
\<close>

fun subvals :: "val \<Rightarrow> val set"
and subvals_then :: "then_member \<Rightarrow> val set"
and subvals_action :: "action \<Rightarrow> val set" where
  "subvals (Obj t i m) = insert (Obj t i m) (subvals_then m)"
| "subvals v = {v}"
| "subvals_then (ThenGetterThrows e) = subvals e"
| "subvals_then (ThenFn acts) = (\<Union>a \<in> set acts. subvals_action a)"
| "subvals_then _ = {}"
| "subvals_action (CallResolve v) = subvals v"
| "subvals_action (CallReject v) = subvals v"
| "subvals_action (Throw v) = subvals v"
| "subvals_action (Later acts) = (\<Union>a \<in> set acts. subvals_action a)"

text \<open>A value that the resolution procedure treats as a plain value.\<close>

definition plain :: "val \<Rightarrow> bool" where
  "plain v = (\<not> is_instance v \<and> (then_of v = ThenAbsent \<or> then_of v = ThenNotCallable))"

text \<open>
  The steps the resolution procedure is composed of: a transition, a \<^verbatim>\<open>then\<close> on
  another promise, a new latch, setting a latch, handing a timer to the host.
\<close>

datatype prim =
    PTransition nat pstate
  | PThen nat handler handler
  | PNewLatch
  | PSetCalled nat
  | PSetTimeout timer

fun apply_prim :: "prim \<Rightarrow> world \<Rightarrow> world" where
  "apply_prim (PTransition p st) s = transition s p st"
| "apply_prim (PThen q f g) s = (case then_op s q f g of Inr (_, s') \<Rightarrow> s' | Inl _ \<Rightarrow> s)"
| "apply_prim PNewLatch s = snd (new_latch s)"
| "apply_prim (PSetCalled l) s = set_called l s"
| "apply_prim (PSetTimeout t) s = setTimeout t s"

fun target :: "fnpair \<Rightarrow> nat" where
  "target (Latched l p) = p"
| "target (Own p) = p"

text \<open>
  The steps that resolving promise \<open>p\<close> with values from \<open>V\<close> can take: it fulfils with
  plain values only, it rejects with a value it was given, or with the cycle error when it
  was given the promise itself, and it attaches to another promise its own two functions.
\<close>

fun allowed :: "nat \<Rightarrow> val set \<Rightarrow> prim \<Rightarrow> bool" where
  "allowed p V (PTransition p' st) =
     (p' = p \<and> (case st of Pending \<Rightarrow> False
                 | Fulfilled w \<Rightarrow> plain w \<and> w \<in> V
                 | Rejected r \<Rightarrow> r \<in> V \<or> (r = cycle_error \<and> PromiseRef p \<in> V)))"
| "allowed p V (PThen q f g) =
     (q \<noteq> p \<and> PromiseRef q \<in> V \<and> f = Function (CbUnpack p) \<and> g = Function (CbTransReject p))"
| "allowed p V PNewLatch = True"
| "allowed p V (PSetCalled l) = True"
| "allowed p V (PSetTimeout (Timer fns acts)) = (target fns = p)"

text \<open>What the run of a script throws: its first \<open>Throw\<close> outside the parts that run later.\<close>

fun thrown :: "action list \<Rightarrow> val option" where
  "thrown [] = None"
| "thrown (Throw e # rest) = Some e"
| "thrown (_ # rest) = thrown rest"

definition composed :: "nat \<Rightarrow> val set \<Rightarrow> world \<Rightarrow> world \<Rightarrow> bool" where
  "composed p V s s' = (\<exists>as. s' = fold apply_prim as s \<and> list_all (allowed p V) as)"


text \<open>The microtasks that \<^verbatim>\<open>#notify\<close> queues for a promise.\<close>

definition due :: "world \<Rightarrow> nat \<Rightarrow> task list" where
  "due s p =
     (case status s p of
        Pending \<Rightarrow> []
      | Fulfilled _ \<Rightarrow> map (Task p KFulfilled) (fulfilledListeners (heap s p))
      | Rejected _ \<Rightarrow> map (Task p KRejected) (rejectedListeners (heap s p)))"

text \<open>The two listener arrays of a settled promise are empty.\<close>

definition queue_inv :: "world \<Rightarrow> bool" where
  "queue_inv s =
     (\<forall>p. status s p \<noteq> Pending \<longrightarrow>
        fulfilledListeners (heap s p) = [] \<and> rejectedListeners (heap s p) = [])"

text \<open>
  The operations on a world: the public operations of the class, the two functions that a
  constructor hands out (an executor may keep them and call them at any time), and the two
  steps of the host. An operation that throws leaves the world as it was.
\<close>

datatype op =
    OpNew "action list executor"
  | OpThen nat handler handler
  | OpCatch nat handler
  | OpStaticResolve val
  | OpStaticReject val
  | OpResolve nat val
  | OpReject nat val
  | OpMicrotask
  | OpTimer

definition world_after :: "world \<Rightarrow> val + nat \<times> world \<Rightarrow> world" where
  "world_after s r = (case r of Inl _ \<Rightarrow> s | Inr (_, s') \<Rightarrow> s')"

fun exec :: "op \<Rightarrow> world \<Rightarrow> world" where
  "exec (OpNew executor) s = world_after s (new_promise executor s)"
| "exec (OpThen p f g) s = world_after s (then_op s p f g)"
| "exec (OpCatch p g) s = world_after s (catch_op s p g)"
| "exec (OpStaticResolve v) s = world_after s (promise_resolve v s)"
| "exec (OpStaticReject r) s = world_after s (promise_reject r s)"
| "exec (OpResolve p v) s = resolve_fn s p v"
| "exec (OpReject p r) s = reject_fn s p r"
| "exec OpMicrotask s = run_microtask s"
| "exec OpTimer s = run_timer s"




text \<open>
  Two promises made as the adapter's \<^verbatim>\<open>deferred()\<close> makes them: the executor keeps the
  two functions and returns.
\<close>

definition two_deferreds :: world where
  "two_deferreds = exec (OpNew (ExecutorFn [])) (exec (OpNew (ExecutorFn [])) init_world)"


text \<open>
  Whether the run of a script calls one of its two functions before it returns or throws;
  the script up to its first throw; the timers that a run of the script hands to the host.
\<close>

fun fires :: "action list \<Rightarrow> bool" where
  "fires [] = False"
| "fires (CallResolve _ # _) = True"
| "fires (CallReject _ # _) = True"
| "fires (Throw _ # _) = False"
| "fires (Later _ # rest) = fires rest"

fun before_throw :: "action list \<Rightarrow> action list" where
  "before_throw [] = []"
| "before_throw (Throw _ # _) = []"
| "before_throw (a # rest) = a # before_throw rest"

fun later_timers :: "fnpair \<Rightarrow> action list \<Rightarrow> timer list" where
  "later_timers fns [] = []"
| "later_timers fns (Throw _ # _) = []"
| "later_timers fns (Later acts # rest) = Timer fns acts # later_timers fns rest"
| "later_timers fns (_ # rest) = later_timers fns rest"

text \<open>
  The log of a world continues a given log, and the executors it has called since belong to
  promises made since.
\<close>

definition extends_log :: "nat \<Rightarrow> event list \<Rightarrow> world \<Rightarrow> bool" where
  "extends_log n tr w =
     (n \<le> next_id w \<and>
      (\<exists>tr'. trace w = tr @ tr' \<and> (\<forall>q. ExecutorCalled q \<in> set tr' \<longrightarrow> n \<le> q)))"

text \<open>
  The part of a log that is about the promise now at an address: what was logged after its
  constructor called its executor.
\<close>

definition life :: "nat \<Rightarrow> event list \<Rightarrow> event list" where
  "life p tr = rev (takeWhile (\<lambda>e. e \<noteq> ExecutorCalled p) (rev tr))"

fun attached_by :: "nat \<Rightarrow> kind \<Rightarrow> event \<Rightarrow> listener list" where
  "attached_by p k (Attached q k' l) = (if q = p \<and> k' = k then [l] else [])"
| "attached_by p k _ = []"

fun invoked_by :: "nat \<Rightarrow> kind \<Rightarrow> event \<Rightarrow> listener list" where
  "invoked_by p k (Invoked q k' l v) = (if q = p \<and> k' = k then [l] else [])"
| "invoked_by p k _ = []"

fun payload_of :: "nat \<Rightarrow> kind \<Rightarrow> event \<Rightarrow> val list" where
  "payload_of p k (Invoked q k' l v) = (if q = p \<and> k' = k then [v] else [])"
| "payload_of p k _ = []"

fun queued_by :: "nat \<Rightarrow> kind \<Rightarrow> task \<Rightarrow> listener list" where
  "queued_by p k (Task q k' l) = (if q = p \<and> k' = k then [l] else [])"

text \<open>
  The listeners appended to an array of a promise, those invoked for it, the arguments they
  were invoked with, and those waiting in the microtask queue, each in order.
\<close>

definition attached :: "nat \<Rightarrow> kind \<Rightarrow> event list \<Rightarrow> listener list" where
  "attached p k tr = concat (map (attached_by p k) (life p tr))"

definition invoked :: "nat \<Rightarrow> kind \<Rightarrow> event list \<Rightarrow> listener list" where
  "invoked p k tr = concat (map (invoked_by p k) (life p tr))"

definition payloads :: "nat \<Rightarrow> kind \<Rightarrow> event list \<Rightarrow> val list" where
  "payloads p k tr = concat (map (payload_of p k) (life p tr))"

definition queued :: "nat \<Rightarrow> kind \<Rightarrow> task list \<Rightarrow> listener list" where
  "queued p k ts = concat (map (queued_by p k) ts)"

fun other :: "kind \<Rightarrow> kind" where
  "other KFulfilled = KRejected"
| "other KRejected = KFulfilled"

text \<open>
  The reactions of a settled promise: its arrays are empty; the listeners of the kind of its
  settlement that were invoked, followed by those that wait in the queue, are the listeners
  that were appended, in the order they were appended; each was invoked with the payload;
  and no listener of the other kind was invoked or waits.
\<close>

definition settled_inv :: "world \<Rightarrow> nat \<Rightarrow> kind \<Rightarrow> val \<Rightarrow> bool" where
  "settled_inv s p k v =
     (fulfilledListeners (heap s p) = [] \<and> rejectedListeners (heap s p) = []
      \<and> invoked p k (trace s) @ queued p k (microtasks s) = attached p k (trace s)
      \<and> set (payloads p k (trace s)) \<subseteq> {v}
      \<and> invoked p (other k) (trace s) = [] \<and> queued p (other k) (microtasks s) = [])"

text \<open>
  The reactions of a pending promise: its arrays hold what was appended, nothing was invoked
  and nothing waits in the queue.
\<close>

definition pending_inv :: "world \<Rightarrow> nat \<Rightarrow> bool" where
  "pending_inv s p =
     (fulfilledListeners (heap s p) = attached p KFulfilled (trace s)
      \<and> rejectedListeners (heap s p) = attached p KRejected (trace s)
      \<and> (\<forall>k. invoked p k (trace s) = [] \<and> queued p k (microtasks s) = []))"

definition reaction_inv :: "world \<Rightarrow> bool" where
  "reaction_inv s =
     (\<forall>p. case status s p of
            Pending \<Rightarrow> pending_inv s p
          | Fulfilled v \<Rightarrow> settled_inv s p KFulfilled v
          | Rejected r \<Rightarrow> settled_inv s p KRejected r)"

text \<open>The promises that calling a function, a listener, a task or a timer can settle.\<close>

fun cb_targets :: "callback \<Rightarrow> nat set" where
  "cb_targets (CbUnpack p) = {p}"
| "cb_targets (CbTransReject p) = {p}"
| "cb_targets (CbUser f) = {}"

fun targets :: "listener \<Rightarrow> nat set" where
  "targets (LRun out cb) = insert out (cb_targets cb)"
| "targets (LResolve p) = {p}"
| "targets (LReject p) = {p}"

fun task_targets :: "task \<Rightarrow> nat set" where
  "task_targets (Task p k l) = insert p (targets l)"

fun timer_targets :: "timer \<Rightarrow> nat set" where
  "timer_targets (Timer fns acts) = {target fns}"

text \<open>
  Every promise that something in the world refers to exists: the listeners in the arrays,
  the tasks (with the promise they read from) and the timers refer to addresses below the
  next one, and what lies at or above the next address is as the first world had it.
\<close>

definition refs_ok :: "world \<Rightarrow> bool" where
  "refs_ok s =
     ((\<forall>p. \<forall>l \<in> set (fulfilledListeners (heap s p)) \<union> set (rejectedListeners (heap s p)).
          \<forall>q \<in> targets l. q < next_id s)
      \<and> (\<forall>t \<in> set (microtasks s). \<forall>q \<in> task_targets t. q < next_id s)
      \<and> (\<forall>t \<in> set (timers s). \<forall>q \<in> timer_targets t. q < next_id s)
      \<and> (\<forall>p. next_id s \<le> p \<longrightarrow> status s p = Pending))"

fun handler_targets :: "handler \<Rightarrow> nat set" where
  "handler_targets (Function cb) = cb_targets cb"
| "handler_targets (NonFunction _) = {}"

text \<open>A world in which the reactions are as described and every reference is to a promise that exists.\<close>

definition wf :: "world \<Rightarrow> bool" where
  "wf s = (reaction_inv s \<and> refs_ok s)"

text \<open>
  An operation that a caller can make in a world: the settling functions it calls belong to a
  promise that exists, and so do the functions it passes to \<^verbatim>\<open>then\<close>.
\<close>

fun op_ok :: "world \<Rightarrow> op \<Rightarrow> bool" where
  "op_ok s (OpThen p f g) = (\<forall>x \<in> handler_targets f \<union> handler_targets g. x < next_id s)"
| "op_ok s (OpCatch p g) = (\<forall>x \<in> handler_targets g. x < next_id s)"
| "op_ok s (OpResolve p v) = (p < next_id s)"
| "op_ok s (OpReject p r) = (p < next_id s)"
| "op_ok s _ = True"

text \<open>The invocations of listeners that a log records.\<close>

fun is_invocation :: "event \<Rightarrow> bool" where
  "is_invocation (Invoked _ _ _ _) = True"
| "is_invocation _ = False"

definition invocations :: "event list \<Rightarrow> event list" where
  "invocations tr = filter is_invocation tr"

text \<open>
  A promise made as the adapter's \<^verbatim>\<open>deferred()\<close> makes it, then \<^verbatim>\<open>then()\<close> on it without
  callbacks, then its fulfilling function called with 1, then the microtask queue run.
\<close>

definition chained :: world where
  "chained = exec (OpThen 0 (NonFunction Undefined) (NonFunction Undefined))
               (exec (OpNew (ExecutorFn [])) init_world)"

definition chained_settled :: world where
  "chained_settled = exec (OpResolve 0 (Num 1)) chained"

definition chained_done :: world where
  "chained_done = run_microtasks 2 chained_settled"

text \<open>The promises that running a task can settle, and the tasks of a queue that can settle a given promise.\<close>

fun task_caps :: "task \<Rightarrow> nat set" where
  "task_caps (Task p k l) = targets l"

definition settlers :: "nat \<Rightarrow> task list \<Rightarrow> task list" where
  "settlers out ts = filter (\<lambda>t. out \<in> task_caps t) ts"

definition caps :: "nat \<Rightarrow> listener list \<Rightarrow> listener list" where
  "caps out ls = filter (\<lambda>l. out \<in> targets l) ls"

text \<open>
  A pending promise \<open>out\<close> follows the promise \<open>inner\<close> through the two listeners \<open>LF\<close> and
  \<open>LR\<close>: nothing else in the world can settle \<open>out\<close>. While \<open>inner\<close> is pending the two
  listeners are in its arrays; once it is settled, the one of its kind is in the queue.
\<close>

definition link :: "nat \<Rightarrow> nat \<Rightarrow> listener \<Rightarrow> listener \<Rightarrow> world \<Rightarrow> bool" where
  "link out inner LF LR w =
     (out < next_id w \<and> inner < next_id w \<and> inner \<noteq> out \<and> status w out = Pending
      \<and> (\<forall>t \<in> set (timers w). out \<notin> timer_targets t)
      \<and> (\<forall>p. p \<noteq> inner \<longrightarrow> caps out (fulfilledListeners (heap w p)) = []
                             \<and> caps out (rejectedListeners (heap w p)) = [])
      \<and> (case status w inner of
            Pending \<Rightarrow>
              caps out (fulfilledListeners (heap w inner)) = [LF]
              \<and> caps out (rejectedListeners (heap w inner)) = [LR]
              \<and> settlers out (microtasks w) = []
          | Fulfilled v \<Rightarrow>
              caps out (fulfilledListeners (heap w inner)) = []
              \<and> caps out (rejectedListeners (heap w inner)) = []
              \<and> settlers out (microtasks w) = [Task inner KFulfilled LF]
          | Rejected r \<Rightarrow>
              caps out (fulfilledListeners (heap w inner)) = []
              \<and> caps out (rejectedListeners (heap w inner)) = []
              \<and> settlers out (microtasks w) = [Task inner KRejected LR]))"

text \<open>
  The two listeners through which a promise follows another: the \<^verbatim>\<open>resolve\<close> and
  \<^verbatim>\<open>reject\<close> that \<^verbatim>\<open>then\<close> appends for missing callbacks, or the two arrow functions of
  the resolution procedure, run for a third promise.
\<close>

definition delivers :: "nat \<Rightarrow> listener \<Rightarrow> listener \<Rightarrow> bool" where
  "delivers out LF LR =
     ((LF = LResolve out \<and> LR = LReject out)
      \<or> (\<exists>o2. o2 \<noteq> out \<and> LF = LRun o2 (CbUnpack out) \<and> LR = LRun o2 (CbTransReject out)))"

text \<open>An operation that does not hand the caller's own way of settling \<open>out\<close> to the world.\<close>

fun external :: "nat \<Rightarrow> op \<Rightarrow> bool" where
  "external out (OpResolve p v) = (p \<noteq> out)"
| "external out (OpReject p r) = (p \<noteq> out)"
| "external out (OpThen p f g) = (out \<notin> handler_targets f \<union> handler_targets g)"
| "external out (OpCatch p g) = (out \<notin> handler_targets g)"
| "external out _ = True"

text \<open>
  The worlds that operations, and assignments of user code to objects, lead to from the first
  world.
\<close>

inductive reachable :: "world \<Rightarrow> bool" where
  reachable_init: "reachable init_world"
| reachable_exec: "reachable s \<Longrightarrow> op_ok s op \<Longrightarrow> reachable (exec op s)"
| reachable_assign: "reachable s \<Longrightarrow> reachable (assign_then i m s)"


text \<open>What an operation needs of the promises it settles directly, for a given need \<open>Q\<close>.\<close>

fun guard_ok :: "(nat \<Rightarrow> bool) \<Rightarrow> op \<Rightarrow> bool" where
  "guard_ok Q (OpResolve p v) = Q p"
| "guard_ok Q (OpReject p r) = Q p"
| "guard_ok Q (OpThen p f g) = (\<forall>x \<in> handler_targets f \<union> handler_targets g. Q x)"
| "guard_ok Q (OpCatch p g) = (\<forall>x \<in> handler_targets g. Q x)"
| "guard_ok Q _ = True"

text \<open>A promise has taken over the settlement of another.\<close>

definition adopted :: "nat \<Rightarrow> nat \<Rightarrow> world \<Rightarrow> bool" where
  "adopted out inner w =
     (out < next_id w \<and> inner < next_id w \<and> status w inner \<noteq> Pending
      \<and> status w out = status w inner)"

definition follows :: "nat \<Rightarrow> nat \<Rightarrow> listener \<Rightarrow> listener \<Rightarrow> world \<Rightarrow> bool" where
  "follows out inner LF LR w =
     (delivers out LF LR \<and> (link out inner LF LR w \<or> adopted out inner w))"

text \<open>Nothing in the world can settle the promise \<open>out\<close>.\<close>

definition sealed :: "nat \<Rightarrow> world \<Rightarrow> bool" where
  "sealed out w =
     ((\<forall>x. caps out (fulfilledListeners (heap w x)) = [] \<and> caps out (rejectedListeners (heap w x)) = [])
      \<and> settlers out (microtasks w) = []
      \<and> (\<forall>t \<in> set (timers w). out \<notin> timer_targets t))"


text \<open>The settlement that the state of a draft promise stands for.\<close>

fun settlement :: "dstate \<Rightarrow> pstate" where
  "settlement (DPending _) = Pending"
| "settlement (DFulfilled v) = Fulfilled v"
| "settlement (DRejected r) = Rejected r"

definition draft_status :: "dworld \<Rightarrow> nat \<Rightarrow> pstate" where
  "draft_status d p = settlement (dheap d p)"

text \<open>
  One promise made with an executor that does nothing, in the final implementation and in
  the draft.
\<close>

definition one_deferred :: world where
  "one_deferred = exec (OpNew (ExecutorFn [])) init_world"

definition draft_deferred :: dworld where
  "draft_deferred =
     (case draft_construct (ExecutorFn (\<lambda>this w. draft_run w this [])) draft_init of
        Inr (_, d) \<Rightarrow> d | Inl _ \<Rightarrow> draft_init)"

text \<open>
  A promise fulfilled with an object that has no \<^verbatim>\<open>then\<close>, and the same world after user
  code has given the object a \<^verbatim>\<open>then\<close> that calls its second argument.
\<close>

definition hijack :: then_member where
  "hijack = ThenFn [CallReject (Str ''hijacked'')]"

definition holder :: world where
  "holder = exec (OpStaticResolve (Obj TObject 5 ThenAbsent)) init_world"

definition hijacked :: world where
  "hijacked = assign_then 5 hijack holder"

text \<open>
  \<^verbatim>\<open>then()\<close> without callbacks on that promise, and the static \<^verbatim>\<open>resolve\<close> given that
  promise, each followed by one step of the microtask queue.
\<close>

definition hijacked_then :: world where
  "hijacked_then =
     run_microtask (exec (OpThen 0 (NonFunction Undefined) (NonFunction Undefined)) hijacked)"


text \<open>
  The values that an operation forwards: those in what its caller hands it; for a step of
  the microtask queue, the value the task reads from its promise and what a callback of the
  user returns or throws for it; for a timer, those in the script that runs.
\<close>

fun listener_values :: "listener \<Rightarrow> val \<Rightarrow> val set" where
  "listener_values (LRun out (CbUser f)) v =
     subvals v \<union> (case f v of Return x \<Rightarrow> subvals x | Raise e \<Rightarrow> subvals e)"
| "listener_values _ v = subvals v"

fun forwarded :: "world \<Rightarrow> op \<Rightarrow> val set" where
  "forwarded s (OpNew (ExecutorFn acts)) = (\<Union>a \<in> set acts. subvals_action a)"
| "forwarded s (OpNew (NotAFunction conv)) = {}"
| "forwarded s (OpThen p f g) = {}"
| "forwarded s (OpCatch p g) = {}"
| "forwarded s (OpStaticResolve v) = subvals v"
| "forwarded s (OpStaticReject r) = subvals r"
| "forwarded s (OpResolve p v) = subvals v"
| "forwarded s (OpReject p r) = subvals r"
| "forwarded s OpMicrotask =
     (case microtasks s of
        [] \<Rightarrow> {}
      | Task p k l # rest \<Rightarrow> listener_values l (payload (status s p) k))"
| "forwarded s OpTimer =
     (case timers s of
        [] \<Rightarrow> {}
      | Timer fns acts # rest \<Rightarrow> (\<Union>a \<in> set acts. subvals_action a))"

text \<open>
  Every reason a promise is rejected with in \<open>w\<close> was its reason in \<open>s\<close> already, or is
  one of the values \<open>V\<close>, or is the cycle error while the promise itself is one of \<open>V\<close>.
\<close>

definition origin_ok :: "val set \<Rightarrow> world \<Rightarrow> world \<Rightarrow> bool" where
  "origin_ok V s w =
     (\<forall>q r. status w q = Rejected r \<longrightarrow>
        status s q = Rejected r \<or> r \<in> V \<or> (r = cycle_error \<and> PromiseRef q \<in> V))"

text \<open>
  The functions a timer closes over, the latch they share, and what a piece of the program
  leaves of latches and timers: it sets no latch that existed before it started, apart from
  those in \<open>F\<close>, and the timers it hands to the host close over a latch in \<open>F\<close> or over
  one made since.
\<close>

fun timer_fns :: "timer \<Rightarrow> fnpair" where
  "timer_fns (Timer fns acts) = fns"

fun latches :: "fnpair \<Rightarrow> nat set" where
  "latches (Latched l p) = {l}"
| "latches (Own p) = {}"

definition lframe :: "nat set \<Rightarrow> world \<Rightarrow> world \<Rightarrow> bool" where
  "lframe F s s' =
     (next_latch s \<le> next_latch s'
      \<and> (\<forall>l. l < next_latch s \<and> l \<notin> F \<longrightarrow> called s' l = called s l)
      \<and> (\<exists>new. timers s' = timers s @ new
            \<and> (\<forall>t \<in> set new. \<forall>l \<in> latches (timer_fns t).
                  l \<in> F \<or> (next_latch s \<le> l \<and> l < next_latch s'))))"



text \<open>
  A pending promise \<open>out\<close> that only timers can settle: no listener and no task refers to
  it, and the timers that do are \<open>X\<close>, in this order.
\<close>

definition mine :: "nat \<Rightarrow> timer list \<Rightarrow> timer list" where
  "mine out ts = filter (\<lambda>t. out \<in> timer_targets t) ts"





text \<open>
  A state a promise can pass on as it is: a reason, or a value that the resolution
  procedure treats as a plain value; a promise that is not settled has nothing to pass on
  yet.
\<close>

fun forwards :: "pstate \<Rightarrow> bool" where
  "forwards Pending = True"
| "forwards (Fulfilled v) = plain v"
| "forwards (Rejected r) = True"

text \<open>
  The worlds that a given world leads to by operations external to the promise \<open>out\<close> and
  by assignments to objects, with no step of the microtask queue taken while the promise
  \<open>inner\<close> holds a value that has come to have a callable or a throwing \<^verbatim>\<open>then\<close>.
\<close>

inductive proceeds :: "nat \<Rightarrow> nat \<Rightarrow> world \<Rightarrow> world \<Rightarrow> bool" for out inner s where
  proceeds_refl: "proceeds out inner s s"
| proceeds_exec: "proceeds out inner s w \<Longrightarrow> op_ok w op \<Longrightarrow> external out op \<Longrightarrow>
                  (op = OpMicrotask \<longrightarrow> forwards (status w inner)) \<Longrightarrow>
                  proceeds out inner s (exec op w)"
| proceeds_assign: "proceeds out inner s w \<Longrightarrow> proceeds out inner s (assign_then i m w)"

section \<open>Basic facts\<close>

declare unpack.simps [simp del]

lemma schedule_eq: "schedule p k ls s = s\<lparr>microtasks := microtasks s @ map (Task p k) ls\<rparr>"
  by (induction ls arbitrary: s) (simp_all add: queueMicrotask_def)

lemma status_notify [simp]: "status (notify s p) q = status s q"
  by (simp add: notify_def status_def splice_all_def schedule_eq split: pstate.splits)

lemma status_set_state [simp]: "status (set_state s p st) q = (if q = p then st else status s q)"
  by (simp add: status_def set_state_def)

lemma status_transition:
  "status (transition s p st) q = (if q = p \<and> status s p = Pending then st else status s q)"
  by (simp add: transition_def)

lemma transition_settled [simp]: "status s p \<noteq> Pending \<Longrightarrow> transition s p st = s"
  by (simp add: transition_def)

lemma unpack_settled [simp]: "status s p \<noteq> Pending \<Longrightarrow> unpack s p v = s"
  by (simp add: unpack.simps)

lemma status_init_world [simp]: "status init_world p = Pending"
  by (simp add: init_world_def status_def fresh_promise_def)


lemma unpack_plain:
  "status s p = Pending \<Longrightarrow> \<not> is_instance v \<Longrightarrow>
   then_of v = ThenAbsent \<or> then_of v = ThenNotCallable \<Longrightarrow>
   unpack s p v = transition s p (Fulfilled v)"
  by (cases v) (auto simp: unpack.simps split: then_member.splits)

subsection \<open>The resolution procedure as a sequence of steps\<close>

lemma self_subvals [simp]: "v \<in> subvals v"
  by (cases v) auto

lemma allowed_mono: "allowed p V a \<Longrightarrow> V \<subseteq> W \<Longrightarrow> allowed p W a"
  by (cases a) (auto split: pstate.splits  elim: allowed.elims)

lemma then_op_Inr: "\<exists>out s'. then_op s q f g = Inr (out, s')"
  by (simp add: then_op_def construct_def then_executor_def alloc_def Let_def)


lemma snd_run_actions [simp]: "snd (run_actions s fns acts) = thrown acts"
  by (induction acts arbitrary: s rule: thrown.induct) simp_all

lemma thrown_subvals: "thrown acts = Some e \<Longrightarrow> e \<in> (\<Union>a \<in> set acts. subvals_action a)"
  by (induction acts rule: thrown.induct) auto

lemma composed_refl [simp]: "composed p V s s"
  unfolding composed_def by (rule exI [of _ "[]"]) simp

lemma composed_single: "allowed p V a \<Longrightarrow> composed p V s (apply_prim a s)"
  unfolding composed_def by (rule exI [of _ "[a]"]) simp

lemma composed_trans: "composed p V s s' \<Longrightarrow> composed p V s' s'' \<Longrightarrow> composed p V s s''"
  unfolding composed_def
proof clarify
  fix as bs
  assume "list_all (allowed p V) as" "list_all (allowed p V) bs"
  then show "\<exists>cs. fold apply_prim bs (fold apply_prim as s) = fold apply_prim cs s
               \<and> list_all (allowed p V) cs"
    by (intro exI [of _ "as @ bs"]) simp
qed

lemma composed_mono: "composed p V s s' \<Longrightarrow> V \<subseteq> W \<Longrightarrow> composed p W s s'"
  unfolding composed_def by (metis (mono_tags, lifting) allowed_mono list_all_iff) 

lemma composed_transition_rejected:
  "r \<in> V \<or> (r = cycle_error \<and> PromiseRef p \<in> V) \<Longrightarrow>
   composed p V s (transition s p (Rejected r))"
  using composed_single [of p V "PTransition p (Rejected r)" s] by simp

lemma composed_transition_fulfilled:
  "plain w \<Longrightarrow> w \<in> V \<Longrightarrow> composed p V s (transition s p (Fulfilled w))"
  using composed_single [of p V "PTransition p (Fulfilled w)" s] by simp

lemma composed_set_called: "composed p V s (set_called l s)"
  using composed_single [of p V "PSetCalled l" s] by simp

lemma composed_new_latch: "composed p V s (snd (new_latch s))"
  using composed_single [of p V "PNewLatch" s] by simp

lemma composed_setTimeout: "target fns = p \<Longrightarrow> composed p V s (setTimeout (Timer fns acts) s)"
  using composed_single [of p V "PSetTimeout (Timer fns acts)" s] by simp

lemma composed_then:
  "q \<noteq> p \<Longrightarrow> PromiseRef q \<in> V \<Longrightarrow>
   composed p V s (case then_op s q (Function (CbUnpack p)) (Function (CbTransReject p)) of
                     Inr (_, s') \<Rightarrow> s' | Inl reason \<Rightarrow> transition s p (Rejected reason))"
proof -
  assume a: "q \<noteq> p" "PromiseRef q \<in> V"
  obtain out s' where t: "then_op s q (Function (CbUnpack p)) (Function (CbTransReject p)) = Inr (out, s')"
    using then_op_Inr by blast
  show ?thesis
    using composed_single [of p V "PThen q (Function (CbUnpack p)) (Function (CbTransReject p))" s] a t
    by simp
qed

lemma unpack_decomp:
  "composed p (subvals v) s (unpack s p v)"
  "composed (target fns) (subvals v) s (call_resolve s fns v)"
  "composed (target fns) (\<Union>a \<in> set acts. subvals_action a) s (fst (run_actions s fns acts))"
proof (induction s p v and s fns v and s fns acts rule: unpack_call_resolve_run_actions.induct)
  case (1 s p v)
  show ?case
  proof (cases "status s p \<noteq> Pending")
    case True
    then show ?thesis by simp
  next
    case pend: False
    show ?thesis
    proof (cases "v = PromiseRef p")
      case True
      then show ?thesis using pend
        by (simp add: unpack.simps composed_transition_rejected)
    next
      case nself: False
      show ?thesis
      proof (cases "\<exists>t i acts. v = Obj t i (ThenFn acts)")
        case True
        then obtain t i acts where v: "v = Obj t i (ThenFn acts)" by blast
        obtain latch s1 where nl: "new_latch s = (latch, s1)" by (cases "new_latch s")
        obtain s2 th where ra: "run_actions s1 (Latched latch p) acts = (s2, th)"
          by (cases "run_actions s1 (Latched latch p) acts")
        have th: "th = thrown acts" using ra snd_run_actions [of s1 "Latched latch p" acts] by simp
        have "composed p (\<Union>a \<in> set acts. subvals_action a) s1 s2"
          using "1.IH" [OF pend nself v refl refl nl [symmetric]] ra by simp
        then have c2: "composed p (subvals v) s1 s2"
          by (rule composed_mono) (auto simp: v)
        have c1: "composed p (subvals v) s s1"
          using composed_new_latch [of p "subvals v" s] nl by simp
        have c12: "composed p (subvals v) s s2" using c1 c2 by (rule composed_trans)
        show ?thesis
        proof (cases th)
          case None
          then show ?thesis using pend nself v nl ra c12 by (simp add: unpack.simps)
        next
          case (Some e)
          then have "e \<in> subvals v" using th thrown_subvals [of acts e] by (auto simp: v)
          then have "composed p (subvals v) (set_called latch s2)
                       (transition (set_called latch s2) p (Rejected e))"
            by (simp add: composed_transition_rejected)
          then have "composed p (subvals v) s (transition (set_called latch s2) p (Rejected e))"
            using c12 composed_set_called composed_trans by blast
          then show ?thesis using pend nself v nl ra c12 Some by (simp add: unpack.simps)
        qed
      next
        case nfn: False
        show ?thesis
        proof (cases v)
          case (PromiseRef q)
          then show ?thesis using pend nself composed_then [of q p "subvals v" s]
            by (simp add: unpack.simps)
        next
          case (Obj t i m)
          then show ?thesis using pend nself nfn
            by (cases m) (simp_all add: unpack.simps composed_transition_rejected
                composed_transition_fulfilled plain_def)
        qed (use pend in \<open>simp_all add: unpack.simps composed_transition_fulfilled plain_def\<close>)
      qed
    qed
  qed
next
  case (2 s latch p v)
  show ?case
  proof (cases "called s latch")
    case True
    then show ?thesis by simp
  next
    case False
    then have "composed p (subvals v) (set_called latch s) (unpack (set_called latch s) p v)"
      using "2.IH" by simp
    then show ?thesis using False composed_set_called composed_trans by fastforce
  qed
next
  case (3 s p v)
  then show ?case by simp
next
  case (4 s fns)
  then show ?case by simp
next
  case (5 s fns v rest)
  have a: "composed (target fns) (\<Union>a \<in> set (CallResolve v # rest). subvals_action a) s (call_resolve s fns v)"
    using "5.IH"(1) by (rule composed_mono) auto
  have b: "composed (target fns) (\<Union>a \<in> set (CallResolve v # rest). subvals_action a)
             (call_resolve s fns v) (fst (run_actions (call_resolve s fns v) fns rest))"
    using "5.IH"(2) by (rule composed_mono) auto
  show ?case using composed_trans [OF a b] by simp
next
  case (6 s fns reason rest)
  have a: "composed (target fns) (\<Union>a \<in> set (CallReject reason # rest). subvals_action a) s
             (call_reject s fns reason)"
  proof (cases fns)
    case (Latched l p)
    have "composed p (\<Union>a \<in> set (CallReject reason # rest). subvals_action a) (set_called l s)
            (transition (set_called l s) p (Rejected reason))"
      by (rule composed_transition_rejected) simp
    then show ?thesis using Latched composed_set_called composed_trans
      by (fastforce simp: call_reject_def)
  next
    case (Own p)
    then show ?thesis
      by (simp add: call_reject_def reject_fn_def composed_transition_rejected)
  qed
  have b: "composed (target fns) (\<Union>a \<in> set (CallReject reason # rest). subvals_action a)
             (call_reject s fns reason) (fst (run_actions (call_reject s fns reason) fns rest))"
    using "6.IH" by (rule composed_mono) auto
  show ?case using composed_trans [OF a b] by simp
next
  case (7 s fns e rest)
  then show ?case by simp
next
  case (8 s fns acts rest)
  have a: "composed (target fns) (\<Union>a \<in> set (Later acts # rest). subvals_action a) s
             (setTimeout (Timer fns acts) s)"
    by (simp add: composed_setTimeout)
  have b: "composed (target fns) (\<Union>a \<in> set (Later acts # rest). subvals_action a)
             (setTimeout (Timer fns acts) s) (fst (run_actions (setTimeout (Timer fns acts) s) fns rest))"
    using "8.IH" by (rule composed_mono) auto
  show ?case using composed_trans [OF a b] by simp
qed

subsection \<open>What the steps do to the fields\<close>


lemma notify_fields [simp]:
  "next_id (notify s p) = next_id s"
  "called (notify s p) = called s"
  "next_latch (notify s p) = next_latch s"
  "timers (notify s p) = timers s"
  "trace (notify s p) = trace s"
  "microtasks (notify s p) = microtasks s @ due s p"
  by (simp_all add: notify_def due_def splice_all_def schedule_eq split: pstate.splits)

lemma heap_notify:
  "heap (notify s p) =
     (if status s p = Pending then heap s
      else (heap s)(p := (heap s p)\<lparr>fulfilledListeners := [], rejectedListeners := []\<rparr>))"
  by (simp add: notify_def splice_all_def schedule_eq split: pstate.splits)

lemma transition_fields [simp]:
  "next_id (transition s p st) = next_id s"
  "called (transition s p st) = called s"
  "next_latch (transition s p st) = next_latch s"
  "timers (transition s p st) = timers s"
  "trace (transition s p st) = trace s"
  by (simp_all add: transition_def set_state_def)



lemma then_op_eq:
  "then_op s that f g =
     Inr (next_id s,
       notify
         (push_rejected that (rejected_listener (next_id s) g)
           (push_fulfilled that (fulfilled_listener (next_id s) f)
             (log_event (ExecutorCalled (next_id s)) (snd (alloc s)))))
         that)"
  by (simp add: then_op_def construct_def then_executor_def alloc_def Let_def)

lemma push_fields [simp]:
  "status (push_fulfilled p l s) q = status s q"
  "status (push_rejected p l s) q = status s q"
  "next_id (push_fulfilled p l s) = next_id s"
  "next_id (push_rejected p l s) = next_id s"
  "microtasks (push_fulfilled p l s) = microtasks s"
  "microtasks (push_rejected p l s) = microtasks s"
  "called (push_fulfilled p l s) = called s"
  "called (push_rejected p l s) = called s"
  "next_latch (push_fulfilled p l s) = next_latch s"
  "next_latch (push_rejected p l s) = next_latch s"
  "timers (push_fulfilled p l s) = timers s"
  "timers (push_rejected p l s) = timers s"
  "trace (push_fulfilled p l s) = trace s @ [Attached p KFulfilled l]"
  "trace (push_rejected p l s) = trace s @ [Attached p KRejected l]"
  by (simp_all add: push_fulfilled_def push_rejected_def log_event_def status_def)

lemma listeners_push [simp]:
  "fulfilledListeners (heap (push_fulfilled p l s) q)
     = (if q = p then fulfilledListeners (heap s p) @ [l] else fulfilledListeners (heap s q))"
  "rejectedListeners (heap (push_fulfilled p l s) q) = rejectedListeners (heap s q)"
  "fulfilledListeners (heap (push_rejected p l s) q) = fulfilledListeners (heap s q)"
  "rejectedListeners (heap (push_rejected p l s) q)
     = (if q = p then rejectedListeners (heap s p) @ [l] else rejectedListeners (heap s q))"
  by (simp_all add: push_fulfilled_def push_rejected_def log_event_def)

lemma listeners_notify [simp]:
  "fulfilledListeners (heap (notify s p) q)
     = (if q = p \<and> status s p \<noteq> Pending then [] else fulfilledListeners (heap s q))"
  "rejectedListeners (heap (notify s p) q)
     = (if q = p \<and> status s p \<noteq> Pending then [] else rejectedListeners (heap s q))"
  by (simp_all add: heap_notify)

lemma log_event_fields [simp]:
  "heap (log_event e s) = heap s"
  "status (log_event e s) q = status s q"
  "next_id (log_event e s) = next_id s"
  "microtasks (log_event e s) = microtasks s"
  "called (log_event e s) = called s"
  "next_latch (log_event e s) = next_latch s"
  "timers (log_event e s) = timers s"
  "trace (log_event e s) = trace s @ [e]"
  by (simp_all add: log_event_def status_def)

lemma alloc_fields [simp]:
  "fst (alloc s) = next_id s"
  "heap (snd (alloc s)) = (heap s)(next_id s := fresh_promise)"
  "status (snd (alloc s)) q = (if q = next_id s then Pending else status s q)"
  "next_id (snd (alloc s)) = Suc (next_id s)"
  "microtasks (snd (alloc s)) = microtasks s"
  "called (snd (alloc s)) = called s"
  "next_latch (snd (alloc s)) = next_latch s"
  "timers (snd (alloc s)) = timers s"
  "trace (snd (alloc s)) = trace s"
  by (simp_all add: alloc_def status_def fresh_promise_def)

lemma fresh_promise_fields [simp]:
  "state fresh_promise = Pending"
  "fulfilledListeners fresh_promise = []"
  "rejectedListeners fresh_promise = []"
  by (simp_all add: fresh_promise_def)

lemma listeners_set_state [simp]:
  "fulfilledListeners (heap (set_state s p st) q) = fulfilledListeners (heap s q)"
  "rejectedListeners (heap (set_state s p st) q) = rejectedListeners (heap s q)"
  by (simp_all add: set_state_def)

lemma listeners_transition:
  "fulfilledListeners (heap (transition s p st) q)
     = (if q = p \<and> status s p = Pending \<and> st \<noteq> Pending then [] else fulfilledListeners (heap s q))"
  "rejectedListeners (heap (transition s p st) q)
     = (if q = p \<and> status s p = Pending \<and> st \<noteq> Pending then [] else rejectedListeners (heap s q))"
  by (simp_all add: transition_def)

lemma queue_inv_transition: "queue_inv s \<Longrightarrow> queue_inv (transition s p st)"
  unfolding queue_inv_def by (auto simp: listeners_transition status_transition)

lemma queue_inv_then: "queue_inv s \<Longrightarrow> then_op s that f g = Inr (out, s') \<Longrightarrow> queue_inv s'"
  unfolding queue_inv_def by (auto simp: then_op_eq)

lemma queue_inv_prim: "queue_inv s \<Longrightarrow> queue_inv (apply_prim a s)"
proof (cases a)
  case (PTransition p st)
  then show "queue_inv s \<Longrightarrow> queue_inv (apply_prim a s)"
    by (simp add: queue_inv_transition)
next
  case (PThen q f g)
  then show "queue_inv s \<Longrightarrow> queue_inv (apply_prim a s)"
    using then_op_Inr [of s q f g] queue_inv_then [of s q f g] by auto
qed (auto simp: queue_inv_def new_latch_def set_called_def setTimeout_def status_def)

lemma composed_induct:
  assumes "composed p V s s'" and "P s"
    and "\<And>a w. allowed p V a \<Longrightarrow> P w \<Longrightarrow> P (apply_prim a w)"
  shows "P s'"
proof -
  obtain as where as: "s' = fold apply_prim as s" "list_all (allowed p V) as"
    using assms(1) unfolding composed_def by blast
  have "list_all (allowed p V) as \<Longrightarrow> P s \<Longrightarrow> P (fold apply_prim as s)" for s
    by (induction as arbitrary: s) (simp_all add: assms(3))
  then show ?thesis using as assms(2) by simp
qed


subsection \<open>Lifting a property of the steps to the operations\<close>

lemma preserved_unpack:
  assumes "P s" and "\<And>a w. P w \<Longrightarrow> P (apply_prim a w)"
  shows "P (unpack s p v)"
  using unpack_decomp(1) [of p v s] assms by (rule composed_induct)

lemma preserved_run_actions:
  assumes "P s" and "\<And>a w. P w \<Longrightarrow> P (apply_prim a w)"
  shows "P (fst (run_actions s fns acts))"
  using unpack_decomp(3) [of fns acts s] assms by (rule composed_induct)

lemma preserved_transition:
  assumes "P s" and "\<And>a w. P w \<Longrightarrow> P (apply_prim a w)"
  shows "P (transition s p st)"
  using assms(2) [OF assms(1), of "PTransition p st"] by simp

lemma preserved_then:
  assumes "P s" and "\<And>a w. P w \<Longrightarrow> P (apply_prim a w)"
  shows "P (world_after s (then_op s p f g))"
  using assms(2) [OF assms(1), of "PThen p f g"] then_op_Inr [of s p f g]
  by (auto simp: world_after_def)

lemma preserved_call_cb:
  assumes "P s" and "\<And>a w. P w \<Longrightarrow> P (apply_prim a w)"
  shows "P (fst (call_cb s cb v))"
proof (cases cb)
  case (CbUnpack p)
  then show ?thesis using preserved_unpack [where P = P, OF assms] by simp
next
  case (CbTransReject p)
  then show ?thesis using preserved_transition [where P = P, OF assms] by simp
next
  case (CbUser f)
  then show ?thesis using assms(1) by simp
qed

lemma preserved_run:
  assumes "P s" and "\<And>a w. P w \<Longrightarrow> P (apply_prim a w)"
  shows "P (run s v p cb)"
proof -
  obtain s1 r where c: "call_cb s cb v = (s1, r)" by (cases "call_cb s cb v")
  have s1: "P s1" using preserved_call_cb [where P = P, OF assms, of cb v] c by simp
  show ?thesis
  proof (cases r)
    case (Return x)
    then show ?thesis using c preserved_unpack [where P = P, OF s1 assms(2)] by (simp add: run_def)
  next
    case (Raise e)
    then show ?thesis using c preserved_transition [where P = P, OF s1 assms(2)] by (simp add: run_def)
  qed
qed

lemma preserved_invoke:
  assumes "P s" and "\<And>a w. P w \<Longrightarrow> P (apply_prim a w)"
  shows "P (invoke s l v)"
proof (cases l)
  case (LRun out cb)
  then show ?thesis using preserved_run [where P = P, OF assms] by simp
next
  case (LResolve p)
  then show ?thesis using preserved_unpack [where P = P, OF assms] by (simp add: resolve_fn_def)
next
  case (LReject p)
  then show ?thesis using preserved_transition [where P = P, OF assms] by (simp add: reject_fn_def)
qed

lemma preserved_run_microtask:
  assumes "P s" and "\<And>a w. P w \<Longrightarrow> P (apply_prim a w)"
    and "\<And>w p k l ts. P w \<Longrightarrow> microtasks w = Task p k l # ts \<Longrightarrow>
           P (log_event (Invoked p k l (payload (status w p) k)) (w\<lparr>microtasks := ts\<rparr>))"
  shows "P (run_microtask s)"
proof (cases "microtasks s")
  case Nil
  then show ?thesis using assms(1) by (simp add: run_microtask_def)
next
  case (Cons t ts)
  obtain p k l where t: "t = Task p k l" by (cases t)
  have "P (log_event (Invoked p k l (payload (status s p) k)) (s\<lparr>microtasks := ts\<rparr>))"
    using assms(1) Cons t by (intro assms(3)) simp_all
  then have "P (invoke (log_event (Invoked p k l (payload (status s p) k)) (s\<lparr>microtasks := ts\<rparr>)) l
               (payload (status s p) k))"
    using assms(2) by (rule preserved_invoke [where P = P])
  then show ?thesis using Cons t
    by (simp add: run_microtask_def Let_def)
qed

lemma preserved_run_timer:
  assumes "P s" and "\<And>a w. P w \<Longrightarrow> P (apply_prim a w)"
    and "\<And>w t ts. P w \<Longrightarrow> timers w = t # ts \<Longrightarrow> P (w\<lparr>timers := ts\<rparr>)"
  shows "P (run_timer s)"
proof (cases "timers s")
  case Nil
  then show ?thesis using assms(1) by (simp add: run_timer_def)
next
  case (Cons t ts)
  obtain fns acts where t: "t = Timer fns acts" by (cases t)
  have "P (s\<lparr>timers := ts\<rparr>)" using assms(1) Cons by (rule assms(3))
  then have "P (fst (run_actions (s\<lparr>timers := ts\<rparr>) fns acts))"
    using assms(2) by (rule preserved_run_actions [where P = P])
  then show ?thesis using Cons t
    by (simp add: run_timer_def)
qed

lemma construct_ExecutorFn:
  "construct (ExecutorFn body) s =
     Inr (next_id s,
       case snd (body (next_id s) (log_event (ExecutorCalled (next_id s)) (snd (alloc s)))) of
         None \<Rightarrow> fst (body (next_id s) (log_event (ExecutorCalled (next_id s)) (snd (alloc s))))
       | Some e \<Rightarrow>
           reject_fn (fst (body (next_id s) (log_event (ExecutorCalled (next_id s)) (snd (alloc s)))))
             (next_id s) e)"
  by (simp add: construct_def alloc_def split_def Let_def split: option.split)

lemma preserved_construct:
  assumes "P s"
    and "\<And>a w. P w \<Longrightarrow> P (apply_prim a w)"
    and "\<And>w. P w \<Longrightarrow> P (log_event (ExecutorCalled (next_id w)) (snd (alloc w)))"
    and "\<And>this w. P w \<Longrightarrow> P (fst (body this w))"
  shows "P (world_after s (construct (ExecutorFn body) s))"
proof -
  let ?w = "log_event (ExecutorCalled (next_id s)) (snd (alloc s))"
  have "P ?w" using assms(1) by (rule assms(3))
  then have b: "P (fst (body (next_id s) ?w))" by (rule assms(4))
  show ?thesis
  proof (cases "snd (body (next_id s) ?w)")
    case None
    then show ?thesis using b by (simp add: world_after_def construct_ExecutorFn)
  next
    case (Some e)
    then show ?thesis using preserved_transition [where P = P, OF b assms(2)]
      by (simp add: world_after_def construct_ExecutorFn reject_fn_def)
  qed
qed

lemma preserved_exec:
  assumes "P s"
    and prim: "\<And>a w. P w \<Longrightarrow> P (apply_prim a w)"
    and new: "\<And>w. P w \<Longrightarrow> P (log_event (ExecutorCalled (next_id w)) (snd (alloc w)))"
    and pop: "\<And>w p k l ts. op = OpMicrotask \<Longrightarrow> P w \<Longrightarrow> microtasks w = Task p k l # ts \<Longrightarrow>
           P (log_event (Invoked p k l (payload (status w p) k)) (w\<lparr>microtasks := ts\<rparr>))"
    and fire: "\<And>w t ts. op = OpTimer \<Longrightarrow> P w \<Longrightarrow> timers w = t # ts \<Longrightarrow> P (w\<lparr>timers := ts\<rparr>)"
  shows "P (exec op s)"
proof (cases op)
  case (OpNew ex)
  show ?thesis
  proof (cases ex)
    case (NotAFunction t)
    have "exec op s = s"
      unfolding OpNew NotAFunction by (simp add: new_promise_def construct_def world_after_def)
    then show ?thesis using assms(1) by (simp only:)
  next
    case (ExecutorFn acts)
    have b: "P (fst (run_actions w (Own this) acts))" if "P w" for this w
      using that prim by (rule preserved_run_actions [where P = P])
    have e: "exec op s = world_after s (construct (ExecutorFn (\<lambda>this w. run_actions w (Own this) acts)) s)"
      unfolding OpNew ExecutorFn by (simp add: new_promise_def)
    show ?thesis
      unfolding e by (rule preserved_construct [where P = P, OF assms(1) prim new b])
  qed
next
  case (OpThen p f g)
  have e: "exec op s = world_after s (then_op s p f g)"
    unfolding OpThen by simp
  show ?thesis unfolding e using assms(1) prim by (rule preserved_then [where P = P])
next
  case (OpCatch p g)
  have e: "exec op s = world_after s (then_op s p (NonFunction Undefined) g)"
    unfolding OpCatch by (simp add: catch_op_def)
  show ?thesis unfolding e using assms(1) prim by (rule preserved_then [where P = P])
next
  case (OpStaticResolve v)
  have b: "P (fst (resolve_fn w this v, None :: val option))" if "P w" for this w
    unfolding fst_conv resolve_fn_def using that prim by (rule preserved_unpack [where P = P])
  have e: "exec op s = world_after s (construct (ExecutorFn (\<lambda>this w. (resolve_fn w this v, None))) s)"
    unfolding OpStaticResolve by (simp add: promise_resolve_def)
  show ?thesis
    unfolding e by (rule preserved_construct [where P = P, OF assms(1) prim new b])
next
  case (OpStaticReject r)
  have b: "P (fst (reject_fn w this r, None :: val option))" if "P w" for this w
    unfolding fst_conv reject_fn_def using that prim by (rule preserved_transition [where P = P])
  have e: "exec op s = world_after s (construct (ExecutorFn (\<lambda>this w. (reject_fn w this r, None))) s)"
    unfolding OpStaticReject by (simp add: promise_reject_def)
  show ?thesis
    unfolding e by (rule preserved_construct [where P = P, OF assms(1) prim new b])
next
  case (OpResolve p v)
  have e: "exec op s = unpack s p v"
    unfolding OpResolve by (simp add: resolve_fn_def)
  show ?thesis unfolding e using assms(1) prim by (rule preserved_unpack [where P = P])
next
  case (OpReject p r)
  have e: "exec op s = transition s p (Rejected r)"
    unfolding OpReject by (simp add: reject_fn_def)
  show ?thesis unfolding e using assms(1) prim by (rule preserved_transition [where P = P])
next
  case OpMicrotask
  have e: "exec op s = run_microtask s"
    unfolding OpMicrotask by simp
  show ?thesis unfolding e using assms(1) prim pop [OF OpMicrotask]
    by (rule preserved_run_microtask [where P = P])
next
  case OpTimer
  have e: "exec op s = run_timer s"
    unfolding OpTimer by simp
  show ?thesis unfolding e using assms(1) prim fire [OF OpTimer]
    by (rule preserved_run_timer [where P = P])
qed

lemma status_upd [simp]:
  "status (s\<lparr>microtasks := ts\<rparr>) p = status s p"
  "status (s\<lparr>timers := tm\<rparr>) p = status s p"
  "status (s\<lparr>called := c\<rparr>) p = status s p"
  "status (s\<lparr>trace := tr\<rparr>) p = status s p"
  "status (s\<lparr>next_latch := n\<rparr>) p = status s p"
  by (simp_all add: status_def)

lemma latch_timer_fields [simp]:
  "status (snd (new_latch s)) p = status s p"
  "status (set_called l s) p = status s p"
  "status (setTimeout t s) p = status s p"
  "heap (snd (new_latch s)) = heap s"
  "heap (set_called l s) = heap s"
  "heap (setTimeout t s) = heap s"
  "next_id (snd (new_latch s)) = next_id s"
  "next_id (set_called l s) = next_id s"
  "next_id (setTimeout t s) = next_id s"
  "microtasks (snd (new_latch s)) = microtasks s"
  "microtasks (set_called l s) = microtasks s"
  "microtasks (setTimeout t s) = microtasks s"
  "trace (snd (new_latch s)) = trace s"
  "trace (set_called l s) = trace s"
  "trace (setTimeout t s) = trace s"
  "timers (snd (new_latch s)) = timers s"
  "timers (set_called l s) = timers s"
  "timers (setTimeout t s) = timers s @ [t]"
  "fst (new_latch s) = next_latch s"
  "next_latch (snd (new_latch s)) = Suc (next_latch s)"
  "next_latch (set_called l s) = next_latch s"
  "next_latch (setTimeout t s) = next_latch s"
  "called (snd (new_latch s)) = (called s)(next_latch s := False)"
  "called (set_called l s) = (called s)(l := True)"
  "called (setTimeout t s) = called s"
  by (simp_all add: new_latch_def set_called_def setTimeout_def status_def)

lemma settled_prim:
  assumes "p < next_id s" and "status s p = st" and "st \<noteq> Pending"
  shows "p < next_id (apply_prim a s) \<and> status (apply_prim a s) p = st"
proof (cases a)
  case (PTransition q st')
  then show ?thesis using assms by (auto simp: status_transition)
next
  case (PThen q f g)
  then show ?thesis using assms by (auto simp: then_op_eq)
qed (use assms in simp_all)

lemma init_world_fields [simp]:
  "heap init_world p = fresh_promise"
  "next_id init_world = 0"
  "microtasks init_world = []"
  "called init_world l = False"
  "next_latch init_world = 0"
  "timers init_world = []"
  "trace init_world = []"
  by (simp_all add: init_world_def)

lemma queue_inv_exec: "queue_inv s \<Longrightarrow> queue_inv (exec op s)"
proof (rule preserved_exec [where P = queue_inv])
  show "\<And>a w. queue_inv w \<Longrightarrow> queue_inv (apply_prim a w)" by (rule queue_inv_prim)
qed (simp_all add: queue_inv_def)

lemma queue_inv_init: "queue_inv init_world"
  by (simp add: queue_inv_def)

lemma settled_exec:
  assumes "p < next_id s" and "status s p = st" and "st \<noteq> Pending"
  shows "p < next_id (exec op s) \<and> status (exec op s) p = st"
proof (rule preserved_exec [where P = "\<lambda>w. p < next_id w \<and> status w p = st"])
  show "p < next_id s \<and> status s p = st" using assms by simp
  show "\<And>a w. p < next_id w \<and> status w p = st \<Longrightarrow>
          p < next_id (apply_prim a w) \<and> status (apply_prim a w) p = st"
    using settled_prim assms(3) by blast
qed auto

subsection \<open>Settling calls\<close>




lemma new_promise_empty:
  "new_promise (ExecutorFn []) s = Inr (next_id s, log_event (ExecutorCalled (next_id s)) (snd (alloc s)))"
  by (simp add: new_promise_def construct_ExecutorFn)

lemma two_deferreds_fields:
  "next_id two_deferreds = 2"
  "status two_deferreds p = Pending"
  by (simp_all add: two_deferreds_def new_promise_empty world_after_def)

lemma status_then_op:
  "status (world_after s (then_op s q f g)) p = (if p = next_id s then Pending else status s p)"
  by (simp add: then_op_eq world_after_def)



subsection \<open>The cycle check and the latch\<close>

lemma unpack_self:
  "status s p = Pending \<Longrightarrow> unpack s p (PromiseRef p) = transition s p (Rejected cycle_error)"
  by (simp add: unpack.simps)

lemma rejection_origin_prim:
  assumes "allowed p V a"
    and "status w p = Pending \<or> (\<exists>x. status w p = Fulfilled x)
         \<or> (\<exists>r. status w p = Rejected r \<and> (r \<in> V \<or> (r = cycle_error \<and> PromiseRef p \<in> V)))"
  shows "status (apply_prim a w) p = Pending \<or> (\<exists>x. status (apply_prim a w) p = Fulfilled x)
         \<or> (\<exists>r. status (apply_prim a w) p = Rejected r \<and> (r \<in> V \<or> (r = cycle_error \<and> PromiseRef p \<in> V)))"
proof (cases a)
  case (PTransition q st)
  then show ?thesis using assms by (cases st) (auto simp: status_transition)
next
  case (PThen q f g)
  then show ?thesis using assms(2) by (auto simp: then_op_eq)
qed (use assms(2) in simp_all)

lemma rejection_origin:
  assumes "status s p = Pending" and "status (unpack s p v) p = Rejected r"
  shows "r \<in> subvals v \<or> (r = cycle_error \<and> PromiseRef p \<in> subvals v)"
proof -
  let ?P = "\<lambda>w. status w p = Pending \<or> (\<exists>x. status w p = Fulfilled x)
         \<or> (\<exists>r. status w p = Rejected r \<and> (r \<in> subvals v \<or> (r = cycle_error \<and> PromiseRef p \<in> subvals v)))"
  have "?P (unpack s p v)"
    using unpack_decomp(1) [of p v s]
  proof (rule composed_induct)
    show "?P s" using assms(1) by simp
    show "\<And>a w. allowed p (subvals v) a \<Longrightarrow> ?P w \<Longrightarrow> ?P (apply_prim a w)"
      by (rule rejection_origin_prim)
  qed
  then show ?thesis using assms(2) by simp
qed

lemma then_op_fields [simp]:
  "called (world_after s (then_op s q f g)) = called s"
  "next_latch (world_after s (then_op s q f g)) = next_latch s"
  "timers (world_after s (then_op s q f g)) = timers s"
  "next_id (world_after s (then_op s q f g)) = Suc (next_id s)"
  by (simp_all add: then_op_eq world_after_def)

lemma apply_prim_PThen: "apply_prim (PThen q f g) s = world_after s (then_op s q f g)"
  by (simp add: world_after_def then_op_eq)

lemma latch_prim:
  assumes "l < next_latch w \<and> called w l"
  shows "l < next_latch (apply_prim a w) \<and> called (apply_prim a w) l"
proof (cases a)
  case (PThen q f g)
  then show ?thesis using assms by (simp only: apply_prim_PThen then_op_fields)
qed (use assms in auto)

lemma latch_unpack:
  assumes "l < next_latch s \<and> called s l"
  shows "l < next_latch (unpack s p v) \<and> called (unpack s p v) l"
  using assms latch_prim by (rule preserved_unpack [where P = "\<lambda>w. l < next_latch w \<and> called w l"])

lemma latch_run_actions:
  assumes "l < next_latch s \<and> called s l"
  shows "l < next_latch (fst (run_actions s fns acts)) \<and> called (fst (run_actions s fns acts)) l"
  using assms latch_prim
  by (rule preserved_run_actions [where P = "\<lambda>w. l < next_latch w \<and> called w l"])

lemma latch_exec:
  assumes "l < next_latch s \<and> called s l"
  shows "l < next_latch (exec op s) \<and> called (exec op s) l"
  using assms
proof (rule preserved_exec [where P = "\<lambda>w. l < next_latch w \<and> called w l"])
  show "\<And>a w. l < next_latch w \<and> called w l \<Longrightarrow>
          l < next_latch (apply_prim a w) \<and> called (apply_prim a w) l"
    by (rule latch_prim)
qed simp_all

lemma call_resolve_called: "called s l \<Longrightarrow> call_resolve s (Latched l p) v = s"
  by simp

lemma call_reject_called: "called s l \<Longrightarrow> call_reject s (Latched l p) r = s"
  by (simp add: call_reject_def)

lemma call_resolve_sets:
  assumes "l < next_latch s"
  shows "l < next_latch (call_resolve s (Latched l p) v) \<and> called (call_resolve s (Latched l p) v) l"
proof (cases "called s l")
  case True
  then show ?thesis using assms by simp
next
  case False
  have "l < next_latch (set_called l s) \<and> called (set_called l s) l" using assms by simp
  then show ?thesis using False latch_unpack [of l "set_called l s" p v] by simp
qed

lemma call_reject_sets:
  assumes "l < next_latch s"
  shows "l < next_latch (call_reject s (Latched l p) r) \<and> called (call_reject s (Latched l p) r) l"
  using assms by (simp add: call_reject_def)

lemma run_actions_called:
  "called s l \<Longrightarrow>
   run_actions s (Latched l p) acts
     = (s\<lparr>timers := timers s @ later_timers (Latched l p) acts\<rparr>, thrown acts)"
  by (induction acts arbitrary: s rule: thrown.induct) (simp_all add: call_reject_def setTimeout_def)

lemma run_actions_fires:
  "fires acts \<Longrightarrow> l < next_latch s \<Longrightarrow>
   l < next_latch (fst (run_actions s (Latched l p) acts)) \<and>
   called (fst (run_actions s (Latched l p) acts)) l"
proof (induction acts arbitrary: s rule: fires.induct)
  case (2 v rest)
  then show ?case
    using call_resolve_sets [of l s p v] latch_run_actions [of l "call_resolve s (Latched l p) v"]
    by simp
next
  case (3 r rest)
  then show ?case
    using call_reject_sets [of l s p r] latch_run_actions [of l "call_reject s (Latched l p) r"]
    by simp
qed simp_all

lemma run_actions_not_fires:
  "\<not> fires acts \<Longrightarrow>
   run_actions s fns acts = (s\<lparr>timers := timers s @ later_timers fns acts\<rparr>, thrown acts)"
  by (induction acts arbitrary: s rule: fires.induct) (simp_all add: setTimeout_def)

lemma run_actions_before_throw:
  "fst (run_actions s fns (before_throw acts)) = fst (run_actions s fns acts)"
  by (induction acts arbitrary: s rule: before_throw.induct) simp_all

lemma thrown_before_throw [simp]: "thrown (before_throw acts) = None"
  by (induction acts rule: before_throw.induct) simp_all

lemma unpack_then_fn:
  "status s p = Pending \<Longrightarrow>
   unpack s p (Obj t i (ThenFn acts)) =
     (let s2 = fst (run_actions (snd (new_latch s)) (Latched (next_latch s) p) acts) in
      case thrown acts of
        None \<Rightarrow> s2
      | Some reason \<Rightarrow>
          if \<not> called s2 (next_latch s)
          then transition (set_called (next_latch s) s2) p (Rejected reason)
          else s2)"
proof -
  assume a: "status s p = Pending"
  obtain s2 th where r: "run_actions (snd (new_latch s)) (Latched (next_latch s) p) acts = (s2, th)"
    by (cases "run_actions (snd (new_latch s)) (Latched (next_latch s) p) acts")
  then have "th = thrown acts"
    using snd_run_actions [of "snd (new_latch s)" "Latched (next_latch s) p" acts] by simp
  then show ?thesis using a r
    by (simp add: unpack.simps new_latch_def split: option.splits)
qed

lemma throw_before_call:
  assumes "status s p = Pending" "\<not> fires acts" "thrown acts = Some e"
  shows "status (unpack s p (Obj t i (ThenFn acts))) p = Rejected e"
  using assms
  by (simp add: unpack_then_fn run_actions_not_fires Let_def status_transition)

lemma throw_after_call:
  assumes "status s p = Pending" "fires acts"
  shows "unpack s p (Obj t i (ThenFn acts)) = unpack s p (Obj t i (ThenFn (before_throw acts)))"
proof -
  have "called (fst (run_actions (snd (new_latch s)) (Latched (next_latch s) p) acts)) (next_latch s)"
    using run_actions_fires [OF assms(2), of "next_latch s" "snd (new_latch s)" p] by simp
  then show ?thesis using assms(1)
    by (simp add: unpack_then_fn Let_def run_actions_before_throw split: option.splits)
qed

lemma two_deferreds_latch: "next_latch two_deferreds = 0"
  by (simp add: two_deferreds_def new_promise_empty world_after_def)

subsection \<open>The constructor\<close>

lemma extends_log_refl: "extends_log (next_id w) (trace w) w"
  by (simp add: extends_log_def)

lemma trace_then_op:
  "trace (world_after s (then_op s q f g)) =
     trace s @ [ExecutorCalled (next_id s),
       Attached q KFulfilled (fulfilled_listener (next_id s) f),
       Attached q KRejected (rejected_listener (next_id s) g)]"
  by (simp add: then_op_eq world_after_def)

lemma extends_log_prim:
  assumes "extends_log n tr w"
  shows "extends_log n tr (apply_prim a w)"
proof (cases a)
  case (PThen q f g)
  obtain tr' where t: "trace w = tr @ tr'" "\<forall>q. ExecutorCalled q \<in> set tr' \<longrightarrow> n \<le> q" "n \<le> next_id w"
    using assms unfolding extends_log_def by blast
  let ?new = "[ExecutorCalled (next_id w),
       Attached q KFulfilled (fulfilled_listener (next_id w) f),
       Attached q KRejected (rejected_listener (next_id w) g)]"
  have "trace (apply_prim a w) = tr @ (tr' @ ?new)"
    using PThen t(1) by (simp only: apply_prim_PThen trace_then_op append_assoc)
  moreover have "\<forall>q. ExecutorCalled q \<in> set (tr' @ ?new) \<longrightarrow> n \<le> q"
    using t(2,3) by auto
  moreover have "n \<le> next_id (apply_prim a w)"
    using PThen t(3) by (simp add: apply_prim_PThen del: apply_prim.simps)
  ultimately show ?thesis unfolding extends_log_def by blast
qed (use assms in \<open>simp_all add: extends_log_def\<close>)

lemma extends_log_run_actions:
  assumes "extends_log n tr w"
  shows "extends_log n tr (fst (run_actions w fns acts))"
  using assms extends_log_prim by (rule preserved_run_actions [where P = "extends_log n tr"])

lemma extends_log_unpack:
  assumes "extends_log n tr w"
  shows "extends_log n tr (unpack w p v)"
  using assms extends_log_prim by (rule preserved_unpack [where P = "extends_log n tr"])

lemma extends_log_transition:
  assumes "extends_log n tr w"
  shows "extends_log n tr (transition w p st)"
  using assms by (simp add: extends_log_def)

lemma new_promise_ExecutorFn:
  "new_promise (ExecutorFn acts) s =
     Inr (next_id s,
       case thrown acts of
         None \<Rightarrow> fst (run_actions (log_event (ExecutorCalled (next_id s)) (snd (alloc s))) (Own (next_id s)) acts)
       | Some e \<Rightarrow>
           reject_fn (fst (run_actions (log_event (ExecutorCalled (next_id s)) (snd (alloc s))) (Own (next_id s)) acts))
             (next_id s) e)"
  by (simp add: new_promise_def construct_ExecutorFn)

lemma new_promise_NotAFunction:
  "new_promise (NotAFunction conv) s = Inl (not_a_function conv)"
  by (simp add: new_promise_def construct_def)

lemma executor_called_once:
  assumes "new_promise (ExecutorFn acts) s = Inr (this, s')"
  shows "\<exists>tr'. trace s' = trace s @ ExecutorCalled this # tr' \<and> ExecutorCalled this \<notin> set tr'"
proof -
  let ?w = "log_event (ExecutorCalled (next_id s)) (snd (alloc s))"
  let ?s2 = "fst (run_actions ?w (Own (next_id s)) acts)"
  have eq: "this = next_id s" using assms by (simp add: new_promise_ExecutorFn)
  have tr: "trace s' = trace ?s2"
    using assms by (auto simp: new_promise_ExecutorFn reject_fn_def split: option.splits)
  have "extends_log (next_id ?w) (trace ?w) ?w" by (rule extends_log_refl)
  then have "extends_log (next_id ?w) (trace ?w) ?s2" by (rule extends_log_run_actions)
  then obtain tr' where t: "trace ?s2 = trace ?w @ tr'" "\<forall>q. ExecutorCalled q \<in> set tr' \<longrightarrow> next_id ?w \<le> q"
    unfolding extends_log_def by blast
  have "ExecutorCalled this \<notin> set tr'" using t(2) eq by auto
  moreover have "trace s' = trace s @ ExecutorCalled this # tr'" using tr t(1) eq by simp
  ultimately show ?thesis by blast
qed

subsection \<open>The reactions of a promise\<close>

lemma life_snoc:
  "life p (tr @ [e]) = (if e = ExecutorCalled p then [] else life p tr @ [e])"
  by (simp add: life_def)

lemma life_Nil [simp]: "life p [] = []"
  by (simp add: life_def)

lemma attached_Nil [simp]: "attached p k [] = []" "invoked p k [] = []" "payloads p k [] = []"
  by (simp_all add: attached_def invoked_def payloads_def)

lemma attached_snoc:
  "attached p k (tr @ [ExecutorCalled q]) = (if q = p then [] else attached p k tr)"
  "attached p k (tr @ [Attached q k' l])
     = (if q = p \<and> k' = k then attached p k tr @ [l] else attached p k tr)"
  "attached p k (tr @ [Invoked q k' l v]) = attached p k tr"
  by (simp_all add: attached_def life_snoc)

lemma invoked_snoc:
  "invoked p k (tr @ [ExecutorCalled q]) = (if q = p then [] else invoked p k tr)"
  "invoked p k (tr @ [Attached q k' l]) = invoked p k tr"
  "invoked p k (tr @ [Invoked q k' l v])
     = (if q = p \<and> k' = k then invoked p k tr @ [l] else invoked p k tr)"
  by (simp_all add: invoked_def life_snoc)

lemma payloads_snoc:
  "payloads p k (tr @ [ExecutorCalled q]) = (if q = p then [] else payloads p k tr)"
  "payloads p k (tr @ [Attached q k' l]) = payloads p k tr"
  "payloads p k (tr @ [Invoked q k' l v])
     = (if q = p \<and> k' = k then payloads p k tr @ [v] else payloads p k tr)"
  by (simp_all add: payloads_def life_snoc)

lemma queued_simps [simp]:
  "queued p k [] = []"
  "queued p k (Task q k' l # ts) = (if q = p \<and> k' = k then l # queued p k ts else queued p k ts)"
  "queued p k (ts @ ts') = queued p k ts @ queued p k ts'"
  by (simp_all add: queued_def)

lemma queued_map_Task:
  "queued p k (map (Task q k') ls) = (if q = p \<and> k' = k then ls else [])"
  by (induction ls) auto

lemma queued_due:
  "queued p k (due s q) =
     (if q = p then
        (case status s p of
           Pending \<Rightarrow> []
         | Fulfilled _ \<Rightarrow> (if k = KFulfilled then fulfilledListeners (heap s p) else [])
         | Rejected _ \<Rightarrow> (if k = KRejected then rejectedListeners (heap s p) else []))
      else [])"
  by (simp add: due_def queued_map_Task split: pstate.splits)

lemma length_payloads: "length (payloads p k tr) = length (invoked p k tr)"
proof -
  have "length (concat (map (payload_of p k) es)) = length (concat (map (invoked_by p k) es))" for es
  proof (induction es)
    case (Cons e es)
    then show ?case by (cases e) simp_all
  qed simp
  then show ?thesis by (simp add: payloads_def invoked_def)
qed

lemma payloads_Nil: "invoked p k tr = [] \<Longrightarrow> payloads p k tr = []"
  using length_payloads [of p k tr] by simp

lemma set_state_fields [simp]:
  "next_id (set_state s p st) = next_id s"
  "microtasks (set_state s p st) = microtasks s"
  "called (set_state s p st) = called s"
  "next_latch (set_state s p st) = next_latch s"
  "timers (set_state s p st) = timers s"
  "trace (set_state s p st) = trace s"
  by (simp_all add: set_state_def)

lemma reaction_invD:
  assumes "reaction_inv s"
  shows "status s p = Pending \<Longrightarrow> pending_inv s p"
    and "status s p = Fulfilled v \<Longrightarrow> settled_inv s p KFulfilled v"
    and "status s p = Rejected r \<Longrightarrow> settled_inv s p KRejected r"
proof -
  have "case status s p of
            Pending \<Rightarrow> pending_inv s p
          | Fulfilled v \<Rightarrow> settled_inv s p KFulfilled v
          | Rejected r \<Rightarrow> settled_inv s p KRejected r"
    using assms unfolding reaction_inv_def by blast
  then show "status s p = Pending \<Longrightarrow> pending_inv s p"
    and "status s p = Fulfilled v \<Longrightarrow> settled_inv s p KFulfilled v"
    and "status s p = Rejected r \<Longrightarrow> settled_inv s p KRejected r"
    by simp_all
qed

lemma reaction_invI:
  assumes "\<And>p. status s p = Pending \<Longrightarrow> pending_inv s p"
    and "\<And>p v. status s p = Fulfilled v \<Longrightarrow> settled_inv s p KFulfilled v"
    and "\<And>p r. status s p = Rejected r \<Longrightarrow> settled_inv s p KRejected r"
  shows "reaction_inv s"
  unfolding reaction_inv_def using assms by (simp split: pstate.splits)

lemma microtasks_transition:
  "microtasks (transition s p st)
     = microtasks s @ (if status s p = Pending then due (set_state s p st) p else [])"
  by (simp add: transition_def)

lemma heap_set_state_other [simp]:
  "fulfilledListeners (heap (set_state s p st) q) = fulfilledListeners (heap s q)"
  "rejectedListeners (heap (set_state s p st) q) = rejectedListeners (heap s q)"
  by (simp_all add: set_state_def)

lemma other_neq [simp]: "other k \<noteq> k" "k \<noteq> other k"
  by (cases k; simp)+

lemma reaction_inv_transition:
  assumes "reaction_inv s" and "st \<noteq> Pending"
  shows "reaction_inv (transition s p st)"
proof (cases "status s p = Pending")
  case False
  then show ?thesis using assms(1) by simp
next
  case True
  have pi: "pending_inv s p" using assms(1) True by (rule reaction_invD)
  let ?w = "transition s p st"
  have st: "status ?w q = (if q = p then st else status s q)" for q
    using True by (simp add: status_transition)
  show ?thesis
  proof (rule reaction_invI)
    fix q assume a: "status ?w q = Pending"
    then have qp: "q \<noteq> p" and sq: "status s q = Pending" using st [of q] assms(2) by (auto split: if_splits)
    have "pending_inv s q" using assms(1) sq by (rule reaction_invD)
    then show "pending_inv ?w q" using qp True
      by (simp add: pending_inv_def listeners_transition microtasks_transition queued_due)
  next
    fix q v assume a: "status ?w q = Fulfilled v"
    show "settled_inv ?w q KFulfilled v"
    proof (cases "q = p")
      case True
      then have "st = Fulfilled v" using a st [of q] by simp
      then show ?thesis using pi \<open>status s p = Pending\<close> True
        by (simp add: settled_inv_def pending_inv_def listeners_transition
              microtasks_transition queued_due payloads_Nil)
    next
      case False
      then have "status s q = Fulfilled v" using a st [of q] by simp
      then have "settled_inv s q KFulfilled v" using assms(1) reaction_invD(2) by blast
      then show ?thesis using False True
        by (simp add: settled_inv_def listeners_transition microtasks_transition queued_due)
    qed
  next
    fix q r assume a: "status ?w q = Rejected r"
    show "settled_inv ?w q KRejected r"
    proof (cases "q = p")
      case True
      then have "st = Rejected r" using a st [of q] by simp
      then show ?thesis using pi \<open>status s p = Pending\<close> True
        by (simp add: settled_inv_def pending_inv_def listeners_transition
              microtasks_transition queued_due payloads_Nil)
    next
      case False
      then have "status s q = Rejected r" using a st [of q] by simp
      then have "settled_inv s q KRejected r" using assms(1) reaction_invD(3) by blast
      then show ?thesis using False True
        by (simp add: settled_inv_def listeners_transition microtasks_transition queued_due)
    qed
  qed
qed

subsection \<open>What \<open>then\<close> does to the fields\<close>

lemma listeners_then_op:
  "fulfilledListeners (heap (world_after s (then_op s q f g)) x) =
     (if x = q \<and> q \<noteq> next_id s \<and> status s q \<noteq> Pending then []
      else (if x = next_id s then [] else fulfilledListeners (heap s x))
           @ (if x = q then [fulfilled_listener (next_id s) f] else []))"
  "rejectedListeners (heap (world_after s (then_op s q f g)) x) =
     (if x = q \<and> q \<noteq> next_id s \<and> status s q \<noteq> Pending then []
      else (if x = next_id s then [] else rejectedListeners (heap s x))
           @ (if x = q then [rejected_listener (next_id s) g] else []))"
  by (auto simp: then_op_eq world_after_def)

lemma microtasks_then_op:
  "microtasks (world_after s (then_op s q f g)) =
     microtasks s @
       (if q = next_id s then []
        else case status s q of
               Pending \<Rightarrow> []
             | Fulfilled _ \<Rightarrow>
                 map (Task q KFulfilled) (fulfilledListeners (heap s q) @ [fulfilled_listener (next_id s) f])
             | Rejected _ \<Rightarrow>
                 map (Task q KRejected) (rejectedListeners (heap s q) @ [rejected_listener (next_id s) g]))"
  by (auto simp: then_op_eq world_after_def due_def split: pstate.splits)

lemma life_append:
  "life p (tr @ es) = (if ExecutorCalled p \<in> set es then life p es else life p tr @ es)"
proof (induction es rule: rev_induct)
  case (snoc e es)
  show ?case using snoc life_snoc [of p "tr @ es" e] life_snoc [of p es e] by auto
qed simp

lemma life_then_events:
  "life x (tr @ [ExecutorCalled out, Attached q KFulfilled l1, Attached q KRejected l2])
     = (if x = out then [Attached q KFulfilled l1, Attached q KRejected l2]
        else life x tr @ [ExecutorCalled out, Attached q KFulfilled l1, Attached q KRejected l2])"
proof (cases "x = out")
  case True
  have "life out [ExecutorCalled out, Attached q KFulfilled l1, Attached q KRejected l2]
          = [Attached q KFulfilled l1, Attached q KRejected l2]"
    by (simp add: life_def)
  then show ?thesis using True by (simp add: life_append)
next
  case False
  then show ?thesis
    by (simp add: life_append)
qed

lemma attached_then_op:
  "attached x k (trace (world_after s (then_op s q f g))) =
     (if x = next_id s then [] else attached x k (trace s))
     @ (if x = q then (case k of KFulfilled \<Rightarrow> [fulfilled_listener (next_id s) f]
                              | KRejected \<Rightarrow> [rejected_listener (next_id s) g]) else [])"
  unfolding trace_then_op attached_def life_then_events by (cases k) auto

lemma invoked_then_op:
  "invoked x k (trace (world_after s (then_op s q f g))) =
     (if x = next_id s then [] else invoked x k (trace s))"
  "payloads x k (trace (world_after s (then_op s q f g))) =
     (if x = next_id s then [] else payloads x k (trace s))"
  unfolding trace_then_op invoked_def payloads_def life_then_events by auto

lemma refs_ok_queued: "refs_ok s \<Longrightarrow> next_id s \<le> p \<Longrightarrow> queued p k (microtasks s) = []"
proof -
  assume r: "refs_ok s" and p: "next_id s \<le> p"
  have "\<forall>t \<in> set ts. \<forall>q \<in> task_targets t. q < next_id s \<Longrightarrow> queued p k ts = []" for ts
  proof (induction ts)
    case (Cons t ts)
    then show ?case using p by (cases t) auto
  qed simp
  then show ?thesis using r unfolding refs_ok_def by blast
qed

lemma reaction_inv_then:
  assumes "reaction_inv s" and "refs_ok s"
  shows "reaction_inv (world_after s (then_op s q f g))"
proof (rule reaction_invI)
  let ?w = "world_after s (then_op s q f g)"
  let ?out = "next_id s"
  have q0: "queued ?out k (microtasks s) = []" for k
    using assms(2) by (simp add: refs_ok_queued)
  {
    fix x assume a: "status ?w x = Pending"
    show "pending_inv ?w x"
    proof (cases "x = ?out")
      case True
      then show ?thesis using q0
        by (auto simp: pending_inv_def listeners_then_op attached_then_op invoked_then_op
            microtasks_then_op queued_map_Task split: pstate.splits kind.splits)
    next
      case False
      then have "status s x = Pending" using a by (simp add: status_then_op)
      then have "pending_inv s x" using assms(1) reaction_invD(1) by blast
      then show ?thesis using False \<open>status s x = Pending\<close>
        by (auto simp: pending_inv_def listeners_then_op attached_then_op invoked_then_op
            microtasks_then_op queued_map_Task split: pstate.splits kind.splits)
    qed
  next
    fix x v assume a: "status ?w x = Fulfilled v"
    then have x: "x \<noteq> ?out" "status s x = Fulfilled v"
      by (auto simp: status_then_op split: if_splits)
    then have "settled_inv s x KFulfilled v" using assms(1) reaction_invD(2) by blast
    then show "settled_inv ?w x KFulfilled v" using x
      by (auto simp: settled_inv_def listeners_then_op attached_then_op invoked_then_op
            microtasks_then_op queued_map_Task split: pstate.splits)
  next
    fix x r assume a: "status ?w x = Rejected r"
    then have x: "x \<noteq> ?out" "status s x = Rejected r"
      by (auto simp: status_then_op split: if_splits)
    then have "settled_inv s x KRejected r" using assms(1) reaction_invD(3) by blast
    then show "settled_inv ?w x KRejected r" using x
      by (auto simp: settled_inv_def listeners_then_op attached_then_op invoked_then_op
            microtasks_then_op queued_map_Task split: pstate.splits)
  }
qed

subsection \<open>References stay valid\<close>

lemma targets_fulfilled_listener [simp]:
  "targets (fulfilled_listener out f) = insert out (handler_targets f)"
  "targets (rejected_listener out g) = insert out (handler_targets g)"
  by (cases f; simp) (cases g; simp)

lemma task_targets_due:
  "t \<in> set (due s p) \<Longrightarrow>
   \<exists>k l. t = Task p k l \<and> l \<in> set (fulfilledListeners (heap s p)) \<union> set (rejectedListeners (heap s p))"
  by (auto simp: due_def split: pstate.splits)

lemma refs_ok_transition:
  assumes "refs_ok s" and "p < next_id s"
  shows "refs_ok (transition s p st)"
proof (cases "status s p = Pending")
  case False
  then show ?thesis using assms(1) by simp
next
  case True
  have l: "\<forall>x. \<forall>l \<in> set (fulfilledListeners (heap s x)) \<union> set (rejectedListeners (heap s x)).
          \<forall>q \<in> targets l. q < next_id s"
    and m: "\<forall>t \<in> set (microtasks s). \<forall>q \<in> task_targets t. q < next_id s"
    and tm: "\<forall>t \<in> set (timers s). \<forall>q \<in> timer_targets t. q < next_id s"
    and u: "\<forall>x. next_id s \<le> x \<longrightarrow> status s x = Pending"
    using assms(1) unfolding refs_ok_def by blast+
  have 1: "\<forall>x. \<forall>l \<in> set (fulfilledListeners (heap (transition s p st) x))
                    \<union> set (rejectedListeners (heap (transition s p st) x)).
          \<forall>q \<in> targets l. q < next_id (transition s p st)"
    using l by (auto simp: listeners_transition)
  have 2: "\<forall>t \<in> set (microtasks (transition s p st)). \<forall>q \<in> task_targets t. q < next_id (transition s p st)"
  proof
    fix t assume "t \<in> set (microtasks (transition s p st))"
    then consider "t \<in> set (microtasks s)" | "t \<in> set (due (set_state s p st) p)"
      by (auto simp: microtasks_transition split: if_splits)
    then show "\<forall>q \<in> task_targets t. q < next_id (transition s p st)"
    proof cases
      case 1
      then show ?thesis using m by simp
    next
      case 2
      then obtain k l' where "t = Task p k l'"
        "l' \<in> set (fulfilledListeners (heap s p)) \<union> set (rejectedListeners (heap s p))"
        using task_targets_due [of t "set_state s p st" p] by auto
      then show ?thesis using l assms(2) by auto
    qed
  qed
  have 3: "\<forall>t \<in> set (timers (transition s p st)). \<forall>q \<in> timer_targets t. q < next_id (transition s p st)"
    using tm by simp
  have 4: "\<forall>x. next_id (transition s p st) \<le> x \<longrightarrow> status (transition s p st) x = Pending"
    using u assms(2) by (auto simp: status_transition)
  show ?thesis unfolding refs_ok_def using 1 2 3 4 by blast
qed

lemma refs_ok_then:
  assumes "refs_ok s" and "\<forall>x \<in> handler_targets f \<union> handler_targets g. x < next_id s"
  shows "refs_ok (world_after s (then_op s q f g))"
proof -
  let ?w = "world_after s (then_op s q f g)"
  have l: "\<forall>x. \<forall>l \<in> set (fulfilledListeners (heap s x)) \<union> set (rejectedListeners (heap s x)).
          \<forall>q \<in> targets l. q < next_id s"
    and m: "\<forall>t \<in> set (microtasks s). \<forall>q \<in> task_targets t. q < next_id s"
    and tm: "\<forall>t \<in> set (timers s). \<forall>q \<in> timer_targets t. q < next_id s"
    and u: "\<forall>x. next_id s \<le> x \<longrightarrow> status s x = Pending"
    using assms(1) unfolding refs_ok_def by blast+
  have 1: "\<forall>x. \<forall>l \<in> set (fulfilledListeners (heap ?w x)) \<union> set (rejectedListeners (heap ?w x)).
          \<forall>y \<in> targets l. y < next_id ?w"
  proof (intro allI ballI)
    fix x l y
    assume "l \<in> set (fulfilledListeners (heap ?w x)) \<union> set (rejectedListeners (heap ?w x))"
      and y: "y \<in> targets l"
    then consider "l \<in> set (fulfilledListeners (heap s x)) \<union> set (rejectedListeners (heap s x))"
      | "l = fulfilled_listener (next_id s) f" | "l = rejected_listener (next_id s) g"
      by (auto simp: listeners_then_op split: if_splits)
    then show "y < next_id ?w"
    proof cases
      case 1
      then have "y < next_id s" using l y by blast
      then show ?thesis by simp
    next
      case 2
      then show ?thesis using y assms(2) by (fastforce simp: less_Suc_eq)
    next
      case 3
      then show ?thesis using y assms(2) by (fastforce simp: less_Suc_eq)
    qed
  qed
  have 2: "\<forall>t \<in> set (microtasks ?w). \<forall>y \<in> task_targets t. y < next_id ?w"
  proof (intro ballI)
    fix t y assume t: "t \<in> set (microtasks ?w)" and y: "y \<in> task_targets t"
    show "y < next_id ?w"
    proof (cases "t \<in> set (microtasks s)")
      case True
      then have "y < next_id s" using m y by blast
      then show ?thesis by simp
    next
      case False
      then have nq: "q \<noteq> next_id s" and sq: "status s q \<noteq> Pending"
        using t by (auto simp: microtasks_then_op split: if_splits pstate.splits)
      then have qlt: "q < next_id s" using u by (meson not_le)
      have "\<exists>k l. t = Task q k l \<and>
              (l \<in> set (fulfilledListeners (heap s q)) \<union> set (rejectedListeners (heap s q))
               \<or> l = fulfilled_listener (next_id s) f \<or> l = rejected_listener (next_id s) g)"
        using t False by (auto simp: microtasks_then_op split: if_splits pstate.splits)
      then obtain k l' where tl: "t = Task q k l'"
        "l' \<in> set (fulfilledListeners (heap s q)) \<union> set (rejectedListeners (heap s q))
               \<or> l' = fulfilled_listener (next_id s) f \<or> l' = rejected_listener (next_id s) g"
        by blast
      have "\<forall>z \<in> targets l'. z < Suc (next_id s)"
        using tl(2) l assms(2) by (auto simp: less_Suc_eq)
      then show ?thesis using tl(1) y qlt by auto
    qed
  qed
  have 3: "\<forall>t \<in> set (timers ?w). \<forall>y \<in> timer_targets t. y < next_id ?w"
    using tm by (auto simp: less_Suc_eq)
  have 4: "\<forall>x. next_id ?w \<le> x \<longrightarrow> status ?w x = Pending"
    using u by (auto simp: status_then_op)
  show ?thesis unfolding refs_ok_def using 1 2 3 4 by blast
qed

lemma refs_ok_latch:
  "refs_ok s \<Longrightarrow> refs_ok (snd (new_latch s))"
  "refs_ok s \<Longrightarrow> refs_ok (set_called l s)"
  by (simp_all add: refs_ok_def)

lemma refs_ok_setTimeout:
  "refs_ok s \<Longrightarrow> target fns < next_id s \<Longrightarrow> refs_ok (setTimeout (Timer fns acts) s)"
  by (auto simp: refs_ok_def)

lemma reaction_inv_cong:
  "heap s' = heap s \<Longrightarrow> trace s' = trace s \<Longrightarrow> microtasks s' = microtasks s \<Longrightarrow>
   reaction_inv s' = reaction_inv s"
proof -
  assume a: "heap s' = heap s" "trace s' = trace s" "microtasks s' = microtasks s"
  have "pending_inv s' p = pending_inv s p" for p
    using a by (simp add: pending_inv_def)
  moreover have "settled_inv s' p k v = settled_inv s p k v" for p k v
    using a by (simp add: settled_inv_def)
  moreover have "status s' p = status s p" for p
    using a by (simp add: status_def)
  ultimately show ?thesis by (auto simp: reaction_inv_def split: pstate.splits)
qed

lemma reaction_inv_latch:
  "reaction_inv s \<Longrightarrow> reaction_inv (snd (new_latch s))"
  "reaction_inv s \<Longrightarrow> reaction_inv (set_called l s)"
  "reaction_inv s \<Longrightarrow> reaction_inv (setTimeout t s)"
  using reaction_inv_cong [of "snd (new_latch s)" s] reaction_inv_cong [of "set_called l s" s]
    reaction_inv_cong [of "setTimeout t s" s]
  by simp_all

lemma wf_prim:
  assumes "allowed p V a" and "wf w \<and> p < next_id w"
  shows "wf (apply_prim a w) \<and> p < next_id (apply_prim a w)"
proof (cases a)
  case (PTransition p' st)
  then have "p' = p" "st \<noteq> Pending" using assms(1) by auto
  then show ?thesis using assms(2) PTransition
    by (simp add: wf_def reaction_inv_transition refs_ok_transition)
next
  case (PThen q f g)
  then have fg: "f = Function (CbUnpack p)" "g = Function (CbTransReject p)" using assms(1) by auto
  have "\<forall>x \<in> handler_targets f \<union> handler_targets g. x < next_id w"
    using fg assms(2) by simp
  then have "refs_ok (world_after w (then_op w q f g))" using assms(2) refs_ok_then wf_def by blast
  moreover have "reaction_inv (world_after w (then_op w q f g))"
    using assms(2) reaction_inv_then wf_def by blast
  ultimately show ?thesis using PThen assms(2)
    by (simp add: apply_prim_PThen wf_def del: apply_prim.simps)
next
  case PNewLatch
  then show ?thesis using assms(2) by (simp add: wf_def reaction_inv_latch refs_ok_latch)
next
  case (PSetCalled l)
  then show ?thesis using assms(2) by (simp add: wf_def reaction_inv_latch refs_ok_latch)
next
  case (PSetTimeout t)
  obtain fns acts where t: "t = Timer fns acts" by (cases t)
  then have "target fns = p" using assms(1) PSetTimeout by simp
  then show ?thesis using assms(2) PSetTimeout t
    by (simp add: wf_def reaction_inv_latch refs_ok_setTimeout)
qed

lemma wf_unpack:
  assumes "wf s" and "p < next_id s"
  shows "wf (unpack s p v) \<and> p < next_id (unpack s p v)"
  using unpack_decomp(1) [of p v s]
proof (rule composed_induct)
  show "wf s \<and> p < next_id s" using assms by simp
  show "\<And>a w. allowed p (subvals v) a \<Longrightarrow> wf w \<and> p < next_id w \<Longrightarrow>
          wf (apply_prim a w) \<and> p < next_id (apply_prim a w)"
    by (rule wf_prim)
qed

lemma wf_run_actions:
  assumes "wf s" and "target fns < next_id s"
  shows "wf (fst (run_actions s fns acts)) \<and> target fns < next_id (fst (run_actions s fns acts))"
  using unpack_decomp(3) [of fns acts s]
proof (rule composed_induct)
  show "wf s \<and> target fns < next_id s" using assms by simp
  show "\<And>a w. allowed (target fns) (\<Union>a \<in> set acts. subvals_action a) a \<Longrightarrow>
          wf w \<and> target fns < next_id w \<Longrightarrow>
          wf (apply_prim a w) \<and> target fns < next_id (apply_prim a w)"
    by (rule wf_prim)
qed

lemma wf_transition:
  assumes "wf s" and "p < next_id s" and "st \<noteq> Pending"
  shows "wf (transition s p st)"
  using assms by (simp add: wf_def reaction_inv_transition refs_ok_transition)

subsection \<open>Every operation keeps the reactions in order\<close>

lemma wf_call_cb:
  assumes "wf s" and "\<forall>x \<in> cb_targets cb. x < next_id s"
  shows "wf (fst (call_cb s cb v)) \<and> next_id s \<le> next_id (fst (call_cb s cb v))"
proof (cases cb)
  case (CbUnpack p)
  then have p: "p < next_id s" using assms(2) by simp
  have "wf (unpack s p v)" using wf_unpack [OF assms(1) p] by simp
  moreover have "next_id s \<le> next_id (unpack s p v)"
    using extends_log_unpack [OF extends_log_refl, of s p v] by (simp add: extends_log_def)
  ultimately show ?thesis using CbUnpack by simp
next
  case (CbTransReject p)
  then have p: "p < next_id s" using assms(2) by simp
  then show ?thesis using CbTransReject assms(1) by (simp add: wf_transition)
next
  case (CbUser f)
  then show ?thesis using assms(1) by simp
qed

lemma wf_run:
  assumes "wf s" and "out < next_id s" and "\<forall>x \<in> cb_targets cb. x < next_id s"
  shows "wf (run s v out cb)"
proof -
  obtain s1 r where c: "call_cb s cb v = (s1, r)" by (cases "call_cb s cb v")
  have s1: "wf s1" "next_id s \<le> next_id s1"
    using wf_call_cb [OF assms(1,3), of v] c by simp_all
  then have o: "out < next_id s1" using assms(2) by simp
  show ?thesis
  proof (cases r)
    case (Return x)
    then show ?thesis using c wf_unpack [OF s1(1) o] by (simp add: run_def)
  next
    case (Raise e)
    then show ?thesis using c wf_transition [OF s1(1) o] by (simp add: run_def)
  qed
qed

lemma wf_invoke:
  assumes "wf s" and "\<forall>x \<in> targets l. x < next_id s"
  shows "wf (invoke s l v)"
proof (cases l)
  case (LRun out cb)
  then show ?thesis using assms wf_run [of s out cb v] by simp
next
  case (LResolve p)
  then show ?thesis using assms wf_unpack [of s p v] by (simp add: resolve_fn_def)
next
  case (LReject p)
  then show ?thesis using assms wf_transition [of s p "Rejected v"] by (simp add: reject_fn_def)
qed

lemma refs_ok_shrink:
  assumes "refs_ok s" and "heap s' = heap s" and "next_id s' = next_id s"
    and "set (microtasks s') \<subseteq> set (microtasks s)" and "set (timers s') \<subseteq> set (timers s)"
  shows "refs_ok s'"
proof -
  have "status s' p = status s p" for p using assms(2) by (simp add: status_def)
  then show ?thesis using assms unfolding refs_ok_def by (simp add: subset_iff) blast
qed

lemma wf_pop:
  assumes "wf s" and "microtasks s = Task p k l # ts"
  shows "wf (log_event (Invoked p k l (payload (status s p) k)) (s\<lparr>microtasks := ts\<rparr>))"
proof -
  let ?v = "payload (status s p) k"
  let ?w = "log_event (Invoked p k l ?v) (s\<lparr>microtasks := ts\<rparr>)"
  have ri: "reaction_inv s" and ro: "refs_ok s" using assms(1) by (simp_all add: wf_def)
  have st: "status ?w x = status s x" for x by simp
  have q: "queued p k (microtasks s) = l # queued p k ts" using assms(2) by simp
  have np: "status s p \<noteq> Pending"
  proof
    assume "status s p = Pending"
    then have "pending_inv s p" using ri reaction_invD(1) by blast
    then show False using q by (simp add: pending_inv_def)
  qed
  have src: "settled_inv s p k ?v"
  proof (cases "status s p")
    case Pending
    then show ?thesis using np by simp
  next
    case (Fulfilled v)
    then have si: "settled_inv s p KFulfilled v" using ri reaction_invD(2) by blast
    then have "k = KFulfilled" using q by (cases k) (simp_all add: settled_inv_def)
    then show ?thesis using si Fulfilled by simp
  next
    case (Rejected r)
    then have si: "settled_inv s p KRejected r" using ri reaction_invD(3) by blast
    then have "k = KRejected" using q by (cases k) (simp_all add: settled_inv_def)
    then show ?thesis using si Rejected by simp
  qed
  have src': "settled_inv ?w p k ?v"
    using src q unfolding settled_inv_def
    by (simp add: invoked_snoc payloads_snoc attached_snoc assms(2))
  have oth: "settled_inv ?w x k' v'" if "settled_inv s x k' v'" and "x \<noteq> p" for x k' v'
    using that unfolding settled_inv_def
    by (simp add: invoked_snoc payloads_snoc attached_snoc assms(2))
  have pk: "status s p = Fulfilled v' \<Longrightarrow> k = KFulfilled \<and> v' = ?v"
       "status s p = Rejected v' \<Longrightarrow> k = KRejected \<and> v' = ?v" for v'
  proof -
    show "status s p = Fulfilled v' \<Longrightarrow> k = KFulfilled \<and> v' = ?v"
      using q ri reaction_invD(2) [of s p v'] by (cases k) (auto simp: settled_inv_def)
    show "status s p = Rejected v' \<Longrightarrow> k = KRejected \<and> v' = ?v"
      using q ri reaction_invD(3) [of s p v'] by (cases k) (auto simp: settled_inv_def)
  qed
  have "reaction_inv ?w"
  proof (rule reaction_invI)
    fix x assume "status ?w x = Pending"
    then have sx: "status s x = Pending" by simp
    then have xp: "x \<noteq> p" using np by auto
    have "pending_inv s x" using ri sx reaction_invD(1) by blast
    then show "pending_inv ?w x" using xp
      by (simp add: pending_inv_def invoked_snoc attached_snoc assms(2))
  next
    fix x v assume "status ?w x = Fulfilled v"
    then have sx: "status s x = Fulfilled v" by simp
    then have si: "settled_inv s x KFulfilled v" using ri reaction_invD(2) by blast
    show "settled_inv ?w x KFulfilled v"
    proof (cases "x = p")
      case True
      then show ?thesis using pk(1) [of v] sx src' by simp
    next
      case False
      then show ?thesis using si oth by blast
    qed
  next
    fix x r assume "status ?w x = Rejected r"
    then have sx: "status s x = Rejected r" by simp
    then have si: "settled_inv s x KRejected r" using ri reaction_invD(3) by blast
    show "settled_inv ?w x KRejected r"
    proof (cases "x = p")
      case True
      then show ?thesis using pk(2) [of r] sx src' by simp
    next
      case False
      then show ?thesis using si oth by blast
    qed
  qed
  moreover have "refs_ok ?w"
    using ro by (rule refs_ok_shrink) (auto simp: assms(2))
  ultimately show ?thesis by (simp add: wf_def)
qed

lemma wf_run_microtask:
  assumes "wf s"
  shows "wf (run_microtask s)"
proof (cases "microtasks s")
  case Nil
  then show ?thesis using assms by (simp add: run_microtask_def)
next
  case (Cons t ts)
  obtain p k l where t: "t = Task p k l" by (cases t)
  let ?w = "log_event (Invoked p k l (payload (status s p) k)) (s\<lparr>microtasks := ts\<rparr>)"
  have w: "wf ?w" using assms Cons t wf_pop by simp
  have "\<forall>x \<in> targets l. x < next_id s"
    using assms Cons t unfolding wf_def refs_ok_def by auto
  then have "\<forall>x \<in> targets l. x < next_id ?w" by simp
  then have "wf (invoke ?w l (payload (status s p) k))" using w wf_invoke by blast
  then show ?thesis using Cons t by (simp add: run_microtask_def Let_def)
qed

lemma wf_run_timer:
  assumes "wf s"
  shows "wf (run_timer s)"
proof (cases "timers s")
  case Nil
  then show ?thesis using assms by (simp add: run_timer_def)
next
  case (Cons t ts)
  obtain fns acts where t: "t = Timer fns acts" by (cases t)
  let ?w = "s\<lparr>timers := ts\<rparr>"
  have "refs_ok ?w" using assms unfolding wf_def
    by (elim conjE, rule_tac refs_ok_shrink [of s]) (auto simp: Cons)
  moreover have "reaction_inv ?w" using assms reaction_inv_cong [of ?w s] by (simp add: wf_def)
  ultimately have w: "wf ?w" by (simp add: wf_def)
  have "target fns < next_id s" using assms Cons t unfolding wf_def refs_ok_def by auto
  then have "wf (fst (run_actions ?w fns acts))" using w wf_run_actions [of ?w fns acts] by simp
  then show ?thesis using Cons t by (simp add: run_timer_def)
qed

lemma wf_alloc:
  assumes "wf s"
  shows "wf (log_event (ExecutorCalled (next_id s)) (snd (alloc s)))"
proof -
  let ?n = "next_id s"
  let ?w = "log_event (ExecutorCalled ?n) (snd (alloc s))"
  have ri: "reaction_inv s" and ro: "refs_ok s" using assms by (simp_all add: wf_def)
  have q0: "queued ?n k (microtasks s) = []" for k using ro by (simp add: refs_ok_queued)
  have "reaction_inv ?w"
  proof (rule reaction_invI)
    fix x assume a: "status ?w x = Pending"
    show "pending_inv ?w x"
    proof (cases "x = ?n")
      case True
      then show ?thesis using q0
        by (simp add: pending_inv_def attached_snoc invoked_snoc)
    next
      case False
      then have "pending_inv s x" using a ri reaction_invD(1) [of s x] by simp
      then show ?thesis using False
        by (simp add: pending_inv_def attached_snoc invoked_snoc)
    qed
  next
    fix x v assume a: "status ?w x = Fulfilled v"
    then have x: "x \<noteq> ?n" by (auto split: if_splits)
    then have "settled_inv s x KFulfilled v" using a ri reaction_invD(2) [of s x v] by simp
    then show "settled_inv ?w x KFulfilled v" using x
      by (simp add: settled_inv_def attached_snoc invoked_snoc payloads_snoc)
  next
    fix x r assume a: "status ?w x = Rejected r"
    then have x: "x \<noteq> ?n" by (auto split: if_splits)
    then have "settled_inv s x KRejected r" using a ri reaction_invD(3) [of s x r] by simp
    then show "settled_inv ?w x KRejected r" using x
      by (simp add: settled_inv_def attached_snoc invoked_snoc payloads_snoc)
  qed
  moreover have "refs_ok ?w"
    using ro unfolding refs_ok_def by (auto simp: less_Suc_eq)
  ultimately show ?thesis by (simp add: wf_def)
qed

lemma wf_construct:
  assumes "wf s"
    and "\<And>w. wf w \<Longrightarrow> next_id s < next_id w \<Longrightarrow>
           wf (fst (body (next_id s) w)) \<and> next_id s < next_id (fst (body (next_id s) w))"
  shows "wf (world_after s (construct (ExecutorFn body) s))"
proof -
  let ?w = "log_event (ExecutorCalled (next_id s)) (snd (alloc s))"
  have "wf ?w" using assms(1) by (rule wf_alloc)
  then have b: "wf (fst (body (next_id s) ?w)) \<and> next_id s < next_id (fst (body (next_id s) ?w))"
    by (rule assms(2)) simp
  show ?thesis
  proof (cases "snd (body (next_id s) ?w)")
    case None
    then show ?thesis using b by (simp add: world_after_def construct_ExecutorFn)
  next
    case (Some e)
    then show ?thesis using b wf_transition [of "fst (body (next_id s) ?w)" "next_id s" "Rejected e"]
      by (simp add: world_after_def construct_ExecutorFn reject_fn_def)
  qed
qed

lemma wf_then:
  assumes "wf s" and "\<forall>x \<in> handler_targets f \<union> handler_targets g. x < next_id s"
  shows "wf (world_after s (then_op s q f g))"
  using assms by (simp add: wf_def reaction_inv_then refs_ok_then)

lemma wf_exec:
  assumes "wf s" and "op_ok s op"
  shows "wf (exec op s)"
proof (cases op)
  case (OpNew ex)
  show ?thesis
  proof (cases ex)
    case (NotAFunction t)
    then show ?thesis using OpNew assms(1) by (simp add: new_promise_NotAFunction world_after_def)
  next
    case (ExecutorFn acts)
    have "wf (world_after s (construct (ExecutorFn (\<lambda>this w. run_actions w (Own this) acts)) s))"
      using assms(1)
    proof (rule wf_construct)
      fix w assume "wf w" "next_id s < next_id w"
      then show "wf (fst (run_actions w (Own (next_id s)) acts))
                 \<and> next_id s < next_id (fst (run_actions w (Own (next_id s)) acts))"
        using wf_run_actions [of w "Own (next_id s)" acts] by simp
    qed
    then show ?thesis using OpNew ExecutorFn by (simp add: new_promise_def)
  qed
next
  case (OpThen p f g)
  then show ?thesis using assms wf_then [of s f g p] by simp
next
  case (OpCatch p g)
  then show ?thesis using assms wf_then [of s "NonFunction Undefined" g p] by (simp add: catch_op_def)
next
  case (OpStaticResolve v)
  have "wf (world_after s (construct (ExecutorFn (\<lambda>this w. (resolve_fn w this v, None))) s))"
    using assms(1)
  proof (rule wf_construct)
    fix w assume "wf w" "next_id s < next_id w"
    then show "wf (fst (resolve_fn w (next_id s) v, None :: val option))
               \<and> next_id s < next_id (fst (resolve_fn w (next_id s) v, None :: val option))"
      using wf_unpack [of w "next_id s" v] by (simp add: resolve_fn_def)
  qed
  then show ?thesis using OpStaticResolve by (simp add: promise_resolve_def)
next
  case (OpStaticReject r)
  have "wf (world_after s (construct (ExecutorFn (\<lambda>this w. (reject_fn w this r, None))) s))"
    using assms(1)
  proof (rule wf_construct)
    fix w assume "wf w" "next_id s < next_id w"
    then show "wf (fst (reject_fn w (next_id s) r, None :: val option))
               \<and> next_id s < next_id (fst (reject_fn w (next_id s) r, None :: val option))"
      using wf_transition [of w "next_id s" "Rejected r"] by (simp add: reject_fn_def)
  qed
  then show ?thesis using OpStaticReject by (simp add: promise_reject_def)
next
  case (OpResolve p v)
  then show ?thesis using assms wf_unpack [of s p v] by (simp add: resolve_fn_def)
next
  case (OpReject p r)
  then show ?thesis using assms wf_transition [of s p "Rejected r"] by (simp add: reject_fn_def)
next
  case OpMicrotask
  then show ?thesis using assms(1) by (simp add: wf_run_microtask)
next
  case OpTimer
  then show ?thesis using assms(1) by (simp add: wf_run_timer)
qed

lemma wf_init: "wf init_world"
  by (simp add: wf_def reaction_inv_def pending_inv_def refs_ok_def)

subsection \<open>Listeners run in microtasks only, and every microtask runs\<close>

lemma invocations_prim: "invocations (trace (apply_prim a w)) = invocations (trace w)"
proof (cases a)
  case (PThen q f g)
  then show ?thesis
    by (simp add: apply_prim_PThen trace_then_op invocations_def del: apply_prim.simps)
qed (simp_all add: invocations_def)

lemma invocations_exec:
  assumes "op \<noteq> OpMicrotask"
  shows "invocations (trace (exec op s)) = invocations (trace s)"
proof (rule preserved_exec [where P = "\<lambda>w. invocations (trace w) = invocations (trace s)"])
  show "\<And>a w. invocations (trace w) = invocations (trace s) \<Longrightarrow>
          invocations (trace (apply_prim a w)) = invocations (trace s)"
    by (simp add: invocations_prim)
qed (use assms in \<open>simp_all add: invocations_def\<close>)

lemma grows_prim:
  "\<exists>new more. microtasks (apply_prim a w) = microtasks w @ new \<and> trace (apply_prim a w) = trace w @ more"
proof (cases a)
  case (PTransition p st)
  then show ?thesis by (simp add: microtasks_transition)
next
  case (PThen q f g)
  then show ?thesis
    by (simp add: apply_prim_PThen trace_then_op microtasks_then_op del: apply_prim.simps)
qed simp_all

lemma grows_step:
  assumes "\<exists>new more. microtasks w = ts @ new \<and> trace w = tr @ more"
  shows "\<exists>new more. microtasks (apply_prim a w) = ts @ new \<and> trace (apply_prim a w) = tr @ more"
proof -
  obtain new more where 1: "microtasks w = ts @ new" "trace w = tr @ more" using assms by blast
  obtain new' more' where 2: "microtasks (apply_prim a w) = microtasks w @ new'"
    "trace (apply_prim a w) = trace w @ more'" using grows_prim by blast
  have "microtasks (apply_prim a w) = ts @ (new @ new')" "trace (apply_prim a w) = tr @ (more @ more')"
    using 1 2 by simp_all
  then show ?thesis by blast
qed

lemma run_microtask_head:
  assumes "microtasks s = Task p k l # ts"
  shows "\<exists>new more. microtasks (run_microtask s) = ts @ new
           \<and> trace (run_microtask s) = (trace s @ [Invoked p k l (payload (status s p) k)]) @ more"
proof -
  let ?v = "payload (status s p) k"
  let ?w = "log_event (Invoked p k l ?v) (s\<lparr>microtasks := ts\<rparr>)"
  have "\<exists>new more. microtasks ?w = ts @ new \<and> trace ?w = (trace s @ [Invoked p k l ?v]) @ more"
    by simp
  then have "\<exists>new more. microtasks (invoke ?w l ?v) = ts @ new
               \<and> trace (invoke ?w l ?v) = (trace s @ [Invoked p k l ?v]) @ more"
    using grows_step
    by (rule preserved_invoke [where P = "\<lambda>w. \<exists>new more. microtasks w = ts @ new
               \<and> trace w = (trace s @ [Invoked p k l ?v]) @ more"])
  then show ?thesis using assms by (simp add: run_microtask_def Let_def)
qed

lemma run_microtask_grows:
  "\<exists>new more. microtasks (run_microtask s) = tl (microtasks s) @ new
           \<and> trace (run_microtask s) = trace s @ more"
proof (cases "microtasks s")
  case Nil
  then show ?thesis by (simp add: run_microtask_def)
next
  case (Cons t ts)
  obtain p k l where "t = Task p k l" by (cases t)
  then show ?thesis using Cons run_microtask_head [of s p k l ts] by auto
qed

lemma run_microtasks_Suc: "run_microtasks (Suc i) s = run_microtask (run_microtasks i s)"
  by (induction i arbitrary: s) simp_all

lemma run_microtasks_drop:
  "\<exists>new more. microtasks (run_microtasks i s) = drop i (microtasks s) @ new
       \<and> trace (run_microtasks i s) = trace s @ more"
proof (induction i)
  case 0
  then show ?case by simp
next
  case (Suc i)
  then obtain new more where 1: "microtasks (run_microtasks i s) = drop i (microtasks s) @ new"
    "trace (run_microtasks i s) = trace s @ more" by blast
  obtain new' more' where 2:
    "microtasks (run_microtask (run_microtasks i s)) = tl (microtasks (run_microtasks i s)) @ new'"
    "trace (run_microtask (run_microtasks i s)) = trace (run_microtasks i s) @ more'"
    using run_microtask_grows by blast
  show ?case
  proof (cases "i < length (microtasks s)")
    case True
    then have "tl (drop i (microtasks s) @ new) = drop (Suc i) (microtasks s) @ new"
      by (simp add: drop_Suc tl_drop)
    then have "microtasks (run_microtasks (Suc i) s) = drop (Suc i) (microtasks s) @ (new @ new')"
      "trace (run_microtasks (Suc i) s) = trace s @ (more @ more')"
      using 1 2 by (simp_all only: run_microtasks_Suc append_assoc)
    then show ?thesis by blast
  next
    case False
    then have "microtasks (run_microtasks (Suc i) s) = drop (Suc i) (microtasks s) @ (tl new @ new')"
      "trace (run_microtasks (Suc i) s) = trace s @ (more @ more')"
      using 1 2 by (simp_all add: run_microtasks_Suc del: run_microtasks.simps)
    then show ?thesis by blast
  qed
qed

lemma eventually_invoked:
  assumes "i < length (microtasks s)" and "microtasks s ! i = Task p k l"
  shows "\<exists>tr1 v tr2. trace (run_microtasks (Suc i) s) = trace s @ tr1 @ Invoked p k l v # tr2"
proof -
  obtain new more where 1: "microtasks (run_microtasks i s) = drop i (microtasks s) @ new"
    "trace (run_microtasks i s) = trace s @ more" using run_microtasks_drop by blast
  have "drop i (microtasks s) = Task p k l # drop (Suc i) (microtasks s)"
    using assms by (simp add: Cons_nth_drop_Suc [symmetric])
  then have "microtasks (run_microtasks i s) = Task p k l # (drop (Suc i) (microtasks s) @ new)"
    using 1 by simp
  then obtain more' where
    "trace (run_microtask (run_microtasks i s))
       = (trace (run_microtasks i s) @ [Invoked p k l (payload (status (run_microtasks i s) p) k)]) @ more'"
    using run_microtask_head by blast
  then have "trace (run_microtasks (Suc i) s)
       = trace s @ more @ Invoked p k l (payload (status (run_microtasks i s) p) k) # more'"
    using 1 by (simp add: run_microtasks_Suc del: run_microtasks.simps)
  then show ?thesis by blast
qed

subsection \<open>A chain of two promises\<close>

lemma chained_fields:
  "next_id chained = 2"
  "status chained p = Pending"
  "microtasks chained = []"
  "timers chained = []"
  "trace chained = [ExecutorCalled 0, ExecutorCalled 1,
      Attached 0 KFulfilled (LResolve 1), Attached 0 KRejected (LReject 1)]"
  "fulfilledListeners (heap chained 0) = [LResolve 1]"
  "rejectedListeners (heap chained 0) = [LReject 1]"
  "fulfilledListeners (heap chained (Suc p)) = []"
  "rejectedListeners (heap chained (Suc p)) = []"
  by (simp_all add: chained_def new_promise_empty world_after_def [of _ "Inr _"]
      status_then_op microtasks_then_op trace_then_op listeners_then_op)

lemma chained_settled_fields:
  "next_id chained_settled = 2"
  "status chained_settled p = (if p = 0 then Fulfilled (Num 1) else Pending)"
  "microtasks chained_settled = [Task 0 KFulfilled (LResolve 1)]"
  "timers chained_settled = []"
  "trace chained_settled = trace chained"
  by (simp_all add: chained_settled_def resolve_fn_def unpack_plain chained_fields
      status_transition microtasks_transition listeners_transition due_def)

lemma chained_settled_lists:
  "fulfilledListeners (heap chained_settled p) = []"
  "rejectedListeners (heap chained_settled p) = []"
  by (cases p; simp add: chained_settled_def resolve_fn_def unpack_plain chained_fields
      listeners_transition)+

lemma run_microtask_empty: "microtasks s = [] \<Longrightarrow> run_microtask s = s"
  by (simp add: run_microtask_def)

lemma chained_done_fields:
  "trace chained_done = [ExecutorCalled 0, ExecutorCalled 1,
      Attached 0 KFulfilled (LResolve 1), Attached 0 KRejected (LReject 1),
      Invoked 0 KFulfilled (LResolve 1) (Num 1)]"
  "microtasks chained_done = []"
  "timers chained_done = []"
  "status chained_done p = (if p = 0 \<or> p = 1 then Fulfilled (Num 1) else Pending)"
  "rejectedListeners (heap chained_done p) = []"
proof -
  let ?w = "log_event (Invoked 0 KFulfilled (LResolve 1) (Num 1)) (chained_settled\<lparr>microtasks := []\<rparr>)"
  have 1: "run_microtask chained_settled = transition ?w 1 (Fulfilled (Num 1))"
    by (simp add: run_microtask_def Let_def chained_settled_fields resolve_fn_def unpack_plain)
  have m: "microtasks (transition ?w 1 (Fulfilled (Num 1))) = []"
    by (simp add: microtasks_transition due_def chained_settled_lists)
  have 2: "chained_done = transition ?w 1 (Fulfilled (Num 1))"
    unfolding chained_done_def numeral_2_eq_2 run_microtasks.simps 1
    using m by (rule run_microtask_empty)
  show "trace chained_done = [ExecutorCalled 0, ExecutorCalled 1,
      Attached 0 KFulfilled (LResolve 1), Attached 0 KRejected (LReject 1),
      Invoked 0 KFulfilled (LResolve 1) (Num 1)]"
    unfolding 2 by (simp add: chained_settled_fields chained_fields)
  show "microtasks chained_done = []" unfolding 2 by (rule m)
  show "timers chained_done = []" unfolding 2 by (simp add: chained_settled_fields)
  show "status chained_done p = (if p = 0 \<or> p = 1 then Fulfilled (Num 1) else Pending)"
    unfolding 2 by (simp add: status_transition chained_settled_fields)
  show "rejectedListeners (heap chained_done p) = []"
    unfolding 2 by (simp add: listeners_transition chained_settled_lists)
qed

subsection \<open>Lifting a property of the steps on some promises\<close>

lemma guarded_unpack:
  assumes "P s" and "Q p"
    and "\<And>a w p V. allowed p V a \<Longrightarrow> Q p \<Longrightarrow> P w \<Longrightarrow> P (apply_prim a w)"
  shows "P (unpack s p v)"
  using unpack_decomp(1) [of p v s] assms(1)
proof (rule composed_induct)
  show "\<And>a w. allowed p (subvals v) a \<Longrightarrow> P w \<Longrightarrow> P (apply_prim a w)"
    using assms(2,3) by blast
qed

lemma guarded_run_actions:
  assumes "P s" and "Q (target fns)"
    and "\<And>a w p V. allowed p V a \<Longrightarrow> Q p \<Longrightarrow> P w \<Longrightarrow> P (apply_prim a w)"
  shows "P (fst (run_actions s fns acts))"
  using unpack_decomp(3) [of fns acts s] assms(1)
proof (rule composed_induct)
  show "\<And>a w. allowed (target fns) (\<Union>a \<in> set acts. subvals_action a) a \<Longrightarrow> P w \<Longrightarrow> P (apply_prim a w)"
    using assms(2,3) by blast
qed

lemma guarded_transition_rejected:
  assumes "P s" and "Q p"
    and "\<And>a w p V. allowed p V a \<Longrightarrow> Q p \<Longrightarrow> P w \<Longrightarrow> P (apply_prim a w)"
  shows "P (transition s p (Rejected r))"
proof -
  have "allowed p {r} (PTransition p (Rejected r))" by simp
  then have "P (apply_prim (PTransition p (Rejected r)) s)" using assms by blast
  then show ?thesis by simp
qed

lemma guarded_call_cb:
  assumes "P s" and "\<forall>x \<in> cb_targets cb. Q x"
    and "\<And>a w p V. allowed p V a \<Longrightarrow> Q p \<Longrightarrow> P w \<Longrightarrow> P (apply_prim a w)"
  shows "P (fst (call_cb s cb v))"
proof (cases cb)
  case (CbUnpack p)
  then have "Q p" using assms(2) by simp
  then have "P (unpack s p v)" using assms(1,3) guarded_unpack [where P = P and Q = Q] by blast
  then show ?thesis using CbUnpack by simp
next
  case (CbTransReject p)
  then have "Q p" using assms(2) by simp
  then have "P (transition s p (Rejected v))"
    using assms(1,3) guarded_transition_rejected [where P = P and Q = Q] by blast
  then show ?thesis using CbTransReject by simp
next
  case (CbUser f)
  then show ?thesis using assms(1) by simp
qed

lemma guarded_run:
  assumes "P s" and "Q out" and "\<forall>x \<in> cb_targets cb. Q x"
    and "\<And>a w p V. allowed p V a \<Longrightarrow> Q p \<Longrightarrow> P w \<Longrightarrow> P (apply_prim a w)"
  shows "P (run s v out cb)"
proof -
  obtain s1 r where c: "call_cb s cb v = (s1, r)" by (cases "call_cb s cb v")
  have s1: "P s1" using guarded_call_cb [where P = P and Q = Q and v = v, OF assms(1,3,4)] c by simp
  show ?thesis
  proof (cases r)
    case (Return x)
    have "P (unpack s1 out x)" using s1 assms(2,4) by (rule guarded_unpack [where P = P and Q = Q])
    then show ?thesis using c Return by (simp add: run_def)
  next
    case (Raise e)
    have "P (transition s1 out (Rejected e))"
      using s1 assms(2,4) by (rule guarded_transition_rejected [where P = P and Q = Q])
    then show ?thesis using c Raise by (simp add: run_def)
  qed
qed

lemma guarded_invoke:
  assumes "P s" and "\<forall>x \<in> targets l. Q x"
    and "\<And>a w p V. allowed p V a \<Longrightarrow> Q p \<Longrightarrow> P w \<Longrightarrow> P (apply_prim a w)"
  shows "P (invoke s l v)"
proof (cases l)
  case (LRun out cb)
  then have q: "Q out" "\<forall>x \<in> cb_targets cb. Q x" using assms(2) by simp_all
  have "P (run s v out cb)" using assms(1) q assms(3) by (rule guarded_run [where P = P and Q = Q])
  then show ?thesis using LRun by simp
next
  case (LResolve p)
  then have "Q p" using assms(2) by simp
  then have "P (unpack s p v)" using assms(1,3) guarded_unpack [where P = P and Q = Q] by blast
  then show ?thesis using LResolve by (simp add: resolve_fn_def)
next
  case (LReject p)
  then have "Q p" using assms(2) by simp
  then have "P (transition s p (Rejected v))"
    using assms(1,3) guarded_transition_rejected [where P = P and Q = Q] by blast
  then show ?thesis using LReject by (simp add: reject_fn_def)
qed

lemma guarded_construct:
  assumes "P s"
    and "\<And>a w p V. allowed p V a \<Longrightarrow> Q p \<Longrightarrow> P w \<Longrightarrow> P (apply_prim a w)"
    and "\<And>w. P w \<Longrightarrow> P (log_event (ExecutorCalled (next_id w)) (snd (alloc w))) \<and> Q (next_id w)"
    and "\<And>w. P w \<Longrightarrow> P (fst (body (next_id s) w))"
  shows "P (world_after s (construct (ExecutorFn body) s))"
proof -
  let ?w = "log_event (ExecutorCalled (next_id s)) (snd (alloc s))"
  have w: "P ?w" and q: "Q (next_id s)" using assms(1,3) by blast+
  have b: "P (fst (body (next_id s) ?w))" using w by (rule assms(4))
  show ?thesis
  proof (cases "snd (body (next_id s) ?w)")
    case None
    then show ?thesis using b by (simp add: world_after_def construct_ExecutorFn)
  next
    case (Some e)
    have "P (transition (fst (body (next_id s) ?w)) (next_id s) (Rejected e))"
      using b q assms(2) by (rule guarded_transition_rejected [where P = P and Q = Q])
    then show ?thesis using Some by (simp add: world_after_def construct_ExecutorFn reject_fn_def)
  qed
qed

lemma guarded_exec:
  assumes "P s" and "guard_ok Q op"
    and prim: "\<And>a w p V. allowed p V a \<Longrightarrow> Q p \<Longrightarrow> P w \<Longrightarrow> P (apply_prim a w)"
    and new: "\<And>w. P w \<Longrightarrow> P (log_event (ExecutorCalled (next_id w)) (snd (alloc w))) \<and> Q (next_id w)"
    and thn: "\<And>w q f g. P w \<Longrightarrow> \<forall>x \<in> handler_targets f \<union> handler_targets g. Q x \<Longrightarrow>
                P (world_after w (then_op w q f g))"
    and micro: "\<And>w. op = OpMicrotask \<Longrightarrow> P w \<Longrightarrow> P (run_microtask w)"
    and fire: "\<And>w fns acts ts. op = OpTimer \<Longrightarrow> P w \<Longrightarrow> timers w = Timer fns acts # ts \<Longrightarrow>
                P (w\<lparr>timers := ts\<rparr>) \<and> Q (target fns)"
  shows "P (exec op s)"
proof (cases op)
  case (OpNew ex)
  show ?thesis
  proof (cases ex)
    case (NotAFunction t)
    have "exec op s = s"
      unfolding OpNew NotAFunction by (simp add: new_promise_def construct_def world_after_def)
    then show ?thesis using assms(1) by (simp only:)
  next
    case (ExecutorFn acts)
    have b: "P (fst (run_actions w (Own (next_id s)) acts))" if "P w" for w
    proof -
      have "P (log_event (ExecutorCalled (next_id s)) (snd (alloc s))) \<and> Q (next_id s)"
        using assms(1) by (rule new)
      then have "Q (target (Own (next_id s)))" by simp
      then show ?thesis using that prim guarded_run_actions [where P = P and Q = Q] by blast
    qed
    have e: "exec op s = world_after s (construct (ExecutorFn (\<lambda>this w. run_actions w (Own this) acts)) s)"
      unfolding OpNew ExecutorFn by (simp add: new_promise_def)
    show ?thesis
      unfolding e
      by (rule guarded_construct [where P = P and Q = Q
            and body = "\<lambda>this w. run_actions w (Own this) acts", OF assms(1) prim new b])
  qed
next
  case (OpThen p f g)
  have e: "exec op s = world_after s (then_op s p f g)"
    unfolding OpThen by simp
  show ?thesis unfolding e using assms(1,2) OpThen by (intro thn) simp_all
next
  case (OpCatch p g)
  have e: "exec op s = world_after s (then_op s p (NonFunction Undefined) g)"
    unfolding OpCatch by (simp add: catch_op_def)
  show ?thesis unfolding e using assms(1,2) OpCatch by (intro thn) simp_all
next
  case (OpStaticResolve v)
  have b: "P (fst (resolve_fn w (next_id s) v, None :: val option))" if "P w" for w
  proof -
    have "Q (next_id s)" using assms(1) new by blast
    then show ?thesis
      unfolding fst_conv resolve_fn_def using that prim guarded_unpack [where P = P and Q = Q] by blast
  qed
  have e: "exec op s = world_after s (construct (ExecutorFn (\<lambda>this w. (resolve_fn w this v, None))) s)"
    unfolding OpStaticResolve by (simp add: promise_resolve_def)
  show ?thesis
    unfolding e
    by (rule guarded_construct [where P = P and Q = Q
          and body = "\<lambda>this w. (resolve_fn w this v, None)", OF assms(1) prim new b])
next
  case (OpStaticReject r)
  have b: "P (fst (reject_fn w (next_id s) r, None :: val option))" if "P w" for w
  proof -
    have "Q (next_id s)" using assms(1) new by blast
    then show ?thesis
      unfolding fst_conv reject_fn_def
      using that prim guarded_transition_rejected [where P = P and Q = Q] by blast
  qed
  have e: "exec op s = world_after s (construct (ExecutorFn (\<lambda>this w. (reject_fn w this r, None))) s)"
    unfolding OpStaticReject by (simp add: promise_reject_def)
  show ?thesis
    unfolding e
    by (rule guarded_construct [where P = P and Q = Q
          and body = "\<lambda>this w. (reject_fn w this r, None)", OF assms(1) prim new b])
next
  case (OpResolve p v)
  have e: "exec op s = unpack s p v"
    unfolding OpResolve by (simp add: resolve_fn_def)
  have "Q p" using assms(2) OpResolve by simp
  then show ?thesis unfolding e using assms(1) prim guarded_unpack [where P = P and Q = Q] by blast
next
  case (OpReject p r)
  have e: "exec op s = transition s p (Rejected r)"
    unfolding OpReject by (simp add: reject_fn_def)
  have "Q p" using assms(2) OpReject by simp
  then show ?thesis unfolding e
    using assms(1) prim guarded_transition_rejected [where P = P and Q = Q] by blast
next
  case OpMicrotask
  have e: "exec op s = run_microtask s"
    unfolding OpMicrotask by simp
  show ?thesis unfolding e using OpMicrotask assms(1) by (rule micro)
next
  case OpTimer
  have e: "exec op s = run_timer s"
    unfolding OpTimer by simp
  show ?thesis
  proof (cases "timers s")
    case Nil
    then show ?thesis unfolding e using assms(1) by (simp add: run_timer_def)
  next
    case (Cons t ts)
    obtain fns acts where t: "t = Timer fns acts" by (cases t)
    have "P (s\<lparr>timers := ts\<rparr>) \<and> Q (target fns)" using OpTimer assms(1) Cons t fire by blast
    then have "P (fst (run_actions (s\<lparr>timers := ts\<rparr>) fns acts))"
      using prim guarded_run_actions [where P = P and Q = Q] by blast
    then show ?thesis unfolding e using Cons t by (simp add: run_timer_def)
  qed
qed

subsection \<open>What an assignment leaves as it is\<close>

lemma assign_then_fields [simp]:
  "status (assign_then i m s) p = assigned_state i m (status s p)"
  "fulfilledListeners (heap (assign_then i m s) p) = fulfilledListeners (heap s p)"
  "rejectedListeners (heap (assign_then i m s) p) = rejectedListeners (heap s p)"
  "next_id (assign_then i m s) = next_id s"
  "microtasks (assign_then i m s) = microtasks s"
  "called (assign_then i m s) = called s"
  "next_latch (assign_then i m s) = next_latch s"
  "timers (assign_then i m s) = map (assigned_timer i m) (timers s)"
  "trace (assign_then i m s) = map (assigned_event i m) (trace s)"
  by (simp_all add: assign_then_def status_def)

lemma timer_assigned [simp]:
  "timer_targets (assigned_timer i m t) = timer_targets t"
  "timer_fns (assigned_timer i m t) = timer_fns t"
  by (cases t; simp)+

lemma assigned_state_Pending [simp]:
  "assigned_state i m st = Pending \<longleftrightarrow> st = Pending"
  "Pending = assigned_state i m st \<longleftrightarrow> st = Pending"
  by (cases st; simp)+

lemma life_assigned: "life p (map (assigned_event i m) tr) = map (assigned_event i m) (life p tr)"
proof -
  have e: "(assigned_event i m e \<noteq> ExecutorCalled p) = (e \<noteq> ExecutorCalled p)" for e
    by (cases e) simp_all
  have "takeWhile (\<lambda>e. e \<noteq> ExecutorCalled p) (map (assigned_event i m) xs)
          = map (assigned_event i m) (takeWhile (\<lambda>e. e \<noteq> ExecutorCalled p) xs)" for xs
    by (induction xs) (simp_all add: e)
  then show ?thesis by (simp add: life_def rev_map)
qed

lemma by_assigned [simp]:
  "attached_by p k (assigned_event i m e) = attached_by p k e"
  "invoked_by p k (assigned_event i m e) = invoked_by p k e"
  "payload_of p k (assigned_event i m e) = map (assigned i m) (payload_of p k e)"
  by (cases e; simp)+

lemma log_assigned:
  "attached p k (map (assigned_event i m) tr) = attached p k tr"
  "invoked p k (map (assigned_event i m) tr) = invoked p k tr"
  "payloads p k (map (assigned_event i m) tr) = map (assigned i m) (payloads p k tr)"
  by (simp_all add: attached_def invoked_def payloads_def life_assigned comp_def map_concat)

lemma reaction_inv_assign:
  assumes "reaction_inv s"
  shows "reaction_inv (assign_then i m s)"
proof (rule reaction_invI)
  fix p
  show "status (assign_then i m s) p = Pending \<Longrightarrow> pending_inv (assign_then i m s) p"
    using reaction_invD(1) [OF assms, of p] by (simp add: pending_inv_def log_assigned)
next
  fix p v
  assume a: "status (assign_then i m s) p = Fulfilled v"
  then obtain v0 where v0: "status s p = Fulfilled v0" "v = assigned i m v0"
    by (cases "status s p") simp_all
  then show "settled_inv (assign_then i m s) p KFulfilled v"
    using reaction_invD(2) [OF assms, of p v0] by (auto simp: settled_inv_def log_assigned)
next
  fix p r
  assume a: "status (assign_then i m s) p = Rejected r"
  then obtain r0 where r0: "status s p = Rejected r0" "r = assigned i m r0"
    by (cases "status s p") simp_all
  then show "settled_inv (assign_then i m s) p KRejected r"
    using reaction_invD(3) [OF assms, of p r0] by (auto simp: settled_inv_def log_assigned)
qed

lemma refs_ok_assign: "refs_ok s \<Longrightarrow> refs_ok (assign_then i m s)"
  unfolding refs_ok_def by simp

lemma wf_assign: "wf s \<Longrightarrow> wf (assign_then i m s)"
  by (simp add: wf_def reaction_inv_assign refs_ok_assign)

lemma queue_inv_assign: "queue_inv s \<Longrightarrow> queue_inv (assign_then i m s)"
  by (simp add: queue_inv_def)


lemma link_assign:
  assumes "link out inner LF LR w"
  shows "link out inner LF LR (assign_then i m w)"
  using assms unfolding link_def by (cases "status w inner") simp_all

lemma adopted_assign:
  assumes "adopted out inner w"
  shows "adopted out inner (assign_then i m w)"
  using assms by (simp add: adopted_def)

lemma reachable_inv: "reachable s \<Longrightarrow> wf s \<and> queue_inv s"
proof (induction rule: reachable.induct)
  case reachable_init
  then show ?case by (simp add: wf_init queue_inv_init)
next
  case (reachable_exec s op)
  then show ?case by (simp add: wf_exec queue_inv_exec)
next
  case (reachable_assign s i m)
  then show ?case by (simp add: wf_assign queue_inv_assign)
qed

subsection \<open>What can settle a promise\<close>

lemma caps_simps [simp]:
  "caps out [] = []"
  "caps out (l # ls) = (if out \<in> targets l then l # caps out ls else caps out ls)"
  "caps out (ls @ ls') = caps out ls @ caps out ls'"
  by (simp_all add: caps_def)

lemma settlers_simps [simp]:
  "settlers out [] = []"
  "settlers out (Task p k l # ts) = (if out \<in> targets l then Task p k l # settlers out ts else settlers out ts)"
  "settlers out (ts @ ts') = settlers out ts @ settlers out ts'"
  by (simp_all add: settlers_def)

lemma settlers_map_Task: "settlers out (map (Task q k) ls) = map (Task q k) (caps out ls)"
  by (induction ls) simp_all

lemma settlers_due:
  "settlers out (due s q) =
     (case status s q of
        Pending \<Rightarrow> []
      | Fulfilled _ \<Rightarrow> map (Task q KFulfilled) (caps out (fulfilledListeners (heap s q)))
      | Rejected _ \<Rightarrow> map (Task q KRejected) (caps out (rejectedListeners (heap s q))))"
  by (simp add: due_def settlers_map_Task split: pstate.splits)

lemma link_transition:
  assumes "link out inner LF LR w" and "p \<noteq> out" and "st \<noteq> Pending"
  shows "link out inner LF LR (transition w p st)"
proof (cases "status w p = Pending")
  case False
  then show ?thesis using assms(1) by simp
next
  case True
  let ?w = "transition w p st"
  have b: "out < next_id w" "inner < next_id w" "inner \<noteq> out" "status w out = Pending"
    "\<forall>t \<in> set (timers w). out \<notin> timer_targets t"
    "\<forall>x. x \<noteq> inner \<longrightarrow> caps out (fulfilledListeners (heap w x)) = []
                             \<and> caps out (rejectedListeners (heap w x)) = []"
    using assms(1) unfolding link_def by blast+
  have st: "status ?w x = (if x = p then st else status w x)" for x
    using True by (simp add: status_transition)
  have fl: "fulfilledListeners (heap ?w x) = (if x = p then [] else fulfilledListeners (heap w x))"
       "rejectedListeners (heap ?w x) = (if x = p then [] else rejectedListeners (heap w x))" for x
    using True assms(3) by (simp_all add: listeners_transition)
  have mt: "settlers out (microtasks ?w) = settlers out (microtasks w) @
       (case st of Pending \<Rightarrow> []
        | Fulfilled _ \<Rightarrow> map (Task p KFulfilled) (caps out (fulfilledListeners (heap w p)))
        | Rejected _ \<Rightarrow> map (Task p KRejected) (caps out (rejectedListeners (heap w p))))"
    using True by (simp add: microtasks_transition settlers_due split: pstate.splits)
  show ?thesis
  proof (cases "p = inner")
    case pi: True
    have old: "caps out (fulfilledListeners (heap w inner)) = [LF]"
      "caps out (rejectedListeners (heap w inner)) = [LR]" "settlers out (microtasks w) = []"
      using assms(1) True pi unfolding link_def by simp_all
    show ?thesis unfolding link_def
      using b st fl mt old pi assms(2,3) by (cases st) simp_all
  next
    case False
    have c: "caps out (fulfilledListeners (heap w p)) = []" "caps out (rejectedListeners (heap w p)) = []"
      using b(6) False by simp_all
    have old: "case status w inner of
            Pending \<Rightarrow>
              caps out (fulfilledListeners (heap w inner)) = [LF]
              \<and> caps out (rejectedListeners (heap w inner)) = [LR]
              \<and> settlers out (microtasks w) = []
          | Fulfilled v \<Rightarrow>
              caps out (fulfilledListeners (heap w inner)) = []
              \<and> caps out (rejectedListeners (heap w inner)) = []
              \<and> settlers out (microtasks w) = [Task inner KFulfilled LF]
          | Rejected r \<Rightarrow>
              caps out (fulfilledListeners (heap w inner)) = []
              \<and> caps out (rejectedListeners (heap w inner)) = []
              \<and> settlers out (microtasks w) = [Task inner KRejected LR]"
      using assms(1) unfolding link_def by blast
    have mt': "settlers out (microtasks ?w) = settlers out (microtasks w)"
      using mt c by (cases st) simp_all
    show ?thesis unfolding link_def
      using b st fl mt' old False assms(2) by (auto split: pstate.splits)
  qed
qed

lemma linkD:
  assumes "link out inner LF LR w"
  shows "out < next_id w" "inner < next_id w" "inner \<noteq> out" "status w out = Pending"
    "\<forall>t \<in> set (timers w). out \<notin> timer_targets t"
    "\<And>x. x \<noteq> inner \<Longrightarrow> caps out (fulfilledListeners (heap w x)) = []"
    "\<And>x. x \<noteq> inner \<Longrightarrow> caps out (rejectedListeners (heap w x)) = []"
    "status w inner = Pending \<Longrightarrow> caps out (fulfilledListeners (heap w inner)) = [LF]
        \<and> caps out (rejectedListeners (heap w inner)) = [LR] \<and> settlers out (microtasks w) = []"
    "status w inner = Fulfilled v \<Longrightarrow> caps out (fulfilledListeners (heap w inner)) = []
        \<and> caps out (rejectedListeners (heap w inner)) = []
        \<and> settlers out (microtasks w) = [Task inner KFulfilled LF]"
    "status w inner = Rejected r \<Longrightarrow> caps out (fulfilledListeners (heap w inner)) = []
        \<and> caps out (rejectedListeners (heap w inner)) = []
        \<and> settlers out (microtasks w) = [Task inner KRejected LR]"
  using assms unfolding link_def by (simp_all split: pstate.splits)

lemma linkI:
  assumes "out < next_id w" "inner < next_id w" "inner \<noteq> out" "status w out = Pending"
    "\<forall>t \<in> set (timers w). out \<notin> timer_targets t"
    "\<And>x. x \<noteq> inner \<Longrightarrow> caps out (fulfilledListeners (heap w x)) = []"
    "\<And>x. x \<noteq> inner \<Longrightarrow> caps out (rejectedListeners (heap w x)) = []"
    "status w inner = Pending \<Longrightarrow> caps out (fulfilledListeners (heap w inner)) = [LF]
        \<and> caps out (rejectedListeners (heap w inner)) = [LR] \<and> settlers out (microtasks w) = []"
    "\<And>v. status w inner = Fulfilled v \<Longrightarrow> caps out (fulfilledListeners (heap w inner)) = []
        \<and> caps out (rejectedListeners (heap w inner)) = []
        \<and> settlers out (microtasks w) = [Task inner KFulfilled LF]"
    "\<And>r. status w inner = Rejected r \<Longrightarrow> caps out (fulfilledListeners (heap w inner)) = []
        \<and> caps out (rejectedListeners (heap w inner)) = []
        \<and> settlers out (microtasks w) = [Task inner KRejected LR]"
  shows "link out inner LF LR w"
  unfolding link_def using assms by (simp split: pstate.splits)

lemma link_then:
  assumes "link out inner LF LR w" and "out \<notin> handler_targets f \<union> handler_targets g"
  shows "link out inner LF LR (world_after w (then_op w q f g))"
proof (rule linkI)
  let ?w = "world_after w (then_op w q f g)"
  let ?n = "next_id w"
  note b = linkD [OF assms(1)]
  have n: "out \<noteq> ?n" "inner \<noteq> ?n" using b(1,2) by simp_all
  have l1: "out \<notin> targets (fulfilled_listener ?n f)" "out \<notin> targets (rejected_listener ?n g)"
    using assms(2) n by simp_all
  have cf: "caps out (fulfilledListeners (heap ?w x)) =
      (if x = q \<and> q \<noteq> ?n \<and> status w q \<noteq> Pending then []
       else if x = ?n then [] else caps out (fulfilledListeners (heap w x)))" for x
    using l1 by (simp add: listeners_then_op)
  have cr: "caps out (rejectedListeners (heap ?w x)) =
      (if x = q \<and> q \<noteq> ?n \<and> status w q \<noteq> Pending then []
       else if x = ?n then [] else caps out (rejectedListeners (heap w x)))" for x
    using l1 by (simp add: listeners_then_op)
  have st: "status ?w inner = status w inner" "status ?w out = status w out"
    using n by (simp_all add: status_then_op)
  have cq: "status w q \<noteq> Pending \<Longrightarrow> caps out (fulfilledListeners (heap w q)) = []
            \<and> caps out (rejectedListeners (heap w q)) = []"
    using b(6,7) [of q] b(9,10) by (cases "q = inner"; cases "status w inner") auto
  have mt: "settlers out (microtasks ?w) = settlers out (microtasks w)"
    using l1 cq by (auto simp: microtasks_then_op settlers_map_Task split: pstate.splits)
  show "out < next_id ?w" "inner < next_id ?w" using b(1,2) by simp_all
  show "inner \<noteq> out" by (rule b(3))
  show "status ?w out = Pending" using st b(4) by simp
  show "\<forall>t \<in> set (timers ?w). out \<notin> timer_targets t" using b(5) by simp
  show "\<And>x. x \<noteq> inner \<Longrightarrow> caps out (fulfilledListeners (heap ?w x)) = []"
    using cf b(6) by simp
  show "\<And>x. x \<noteq> inner \<Longrightarrow> caps out (rejectedListeners (heap ?w x)) = []"
    using cr b(7) by simp
  show "status ?w inner = Pending \<Longrightarrow> caps out (fulfilledListeners (heap ?w inner)) = [LF]
        \<and> caps out (rejectedListeners (heap ?w inner)) = [LR] \<and> settlers out (microtasks ?w) = []"
    using cf cr st mt b(8) n by auto
  show "\<And>v. status ?w inner = Fulfilled v \<Longrightarrow> caps out (fulfilledListeners (heap ?w inner)) = []
        \<and> caps out (rejectedListeners (heap ?w inner)) = []
        \<and> settlers out (microtasks ?w) = [Task inner KFulfilled LF]"
    using cf cr st mt b(9) n by auto
  show "\<And>r. status ?w inner = Rejected r \<Longrightarrow> caps out (fulfilledListeners (heap ?w inner)) = []
        \<and> caps out (rejectedListeners (heap ?w inner)) = []
        \<and> settlers out (microtasks ?w) = [Task inner KRejected LR]"
    using cf cr st mt b(10) n by auto
qed

lemma link_cong:
  assumes "link out inner LF LR w" and "heap w' = heap w" and "next_id w' = next_id w"
    and "settlers out (microtasks w') = settlers out (microtasks w)"
    and "\<forall>t \<in> set (timers w'). out \<notin> timer_targets t"
  shows "link out inner LF LR w'"
proof -
  have st: "status w' x = status w x" for x using assms(2) by (simp add: status_def)
  note b = linkD [OF assms(1)]
  show ?thesis
  proof (rule linkI)
    show "out < next_id w'" "inner < next_id w'" using b(1,2) assms(3) by simp_all
    show "inner \<noteq> out" by (rule b(3))
    show "status w' out = Pending" using b(4) st by simp
    show "\<forall>t \<in> set (timers w'). out \<notin> timer_targets t" by (rule assms(5))
    show "\<And>x. x \<noteq> inner \<Longrightarrow> caps out (fulfilledListeners (heap w' x)) = []"
      using b(6) assms(2) by simp
    show "\<And>x. x \<noteq> inner \<Longrightarrow> caps out (rejectedListeners (heap w' x)) = []"
      using b(7) assms(2) by simp
    show "status w' inner = Pending \<Longrightarrow> caps out (fulfilledListeners (heap w' inner)) = [LF]
        \<and> caps out (rejectedListeners (heap w' inner)) = [LR] \<and> settlers out (microtasks w') = []"
      using b(8) st assms(2,4) by simp
    show "\<And>v. status w' inner = Fulfilled v \<Longrightarrow> caps out (fulfilledListeners (heap w' inner)) = []
        \<and> caps out (rejectedListeners (heap w' inner)) = []
        \<and> settlers out (microtasks w') = [Task inner KFulfilled LF]"
      using b(9) st assms(2,4) by simp
    show "\<And>r. status w' inner = Rejected r \<Longrightarrow> caps out (fulfilledListeners (heap w' inner)) = []
        \<and> caps out (rejectedListeners (heap w' inner)) = []
        \<and> settlers out (microtasks w') = [Task inner KRejected LR]"
      using b(10) st assms(2,4) by simp
  qed
qed

lemma link_alloc:
  assumes "link out inner LF LR w"
  shows "link out inner LF LR (log_event (ExecutorCalled (next_id w)) (snd (alloc w)))"
proof -
  note b = linkD [OF assms]
  have n: "out \<noteq> next_id w" "inner \<noteq> next_id w" using b(1,2) by simp_all
  show ?thesis
    using assms n unfolding link_def by (auto simp: less_Suc_eq split: pstate.splits)
qed

lemma link_prim:
  assumes "allowed p V a" and "p \<noteq> out" and "link out inner LF LR w"
  shows "link out inner LF LR (apply_prim a w)"
proof (cases a)
  case (PTransition p' st)
  then have "p' = p" "st \<noteq> Pending" using assms(1) by auto
  then show ?thesis using PTransition assms(2,3) by (simp add: link_transition)
next
  case (PThen q f g)
  then have "f = Function (CbUnpack p)" "g = Function (CbTransReject p)" using assms(1) by auto
  then have "out \<notin> handler_targets f \<union> handler_targets g" using assms(2) by simp
  then show ?thesis using PThen assms(3)
    by (simp add: apply_prim_PThen link_then del: apply_prim.simps)
next
  case PNewLatch
  then show ?thesis using assms(3) link_cong [of out inner LF LR w "snd (new_latch w)"]
    by (simp add: linkD(5) [OF assms(3)])
next
  case (PSetCalled l)
  then show ?thesis using assms(3) link_cong [of out inner LF LR w "set_called l w"]
    by (simp add: linkD(5) [OF assms(3)])
next
  case (PSetTimeout t)
  obtain fns acts where t: "t = Timer fns acts" by (cases t)
  then have "target fns = p" using assms(1) PSetTimeout by simp
  then have "\<forall>t' \<in> set (timers (setTimeout t w)). out \<notin> timer_targets t'"
    using linkD(5) [OF assms(3)] assms(2) t by auto
  then show ?thesis using PSetTimeout assms(3) link_cong [of out inner LF LR w "setTimeout t w"]
    by simp
qed

lemma settled_unpack:
  assumes "x < next_id s" and "status s x = st" and "st \<noteq> Pending"
  shows "x < next_id (unpack s p v) \<and> status (unpack s p v) x = st"
proof (rule preserved_unpack [where P = "\<lambda>w. x < next_id w \<and> status w x = st"])
  show "x < next_id s \<and> status s x = st" using assms by simp
  show "\<And>a w. x < next_id w \<and> status w x = st \<Longrightarrow>
          x < next_id (apply_prim a w) \<and> status (apply_prim a w) x = st"
    using settled_prim assms(3) by blast
qed

lemma adopted_exec:
  assumes "adopted out inner w"
  shows "adopted out inner (exec op w) \<and> status (exec op w) out = status w out"
proof -
  have a: "out < next_id w" "inner < next_id w" "status w inner \<noteq> Pending"
    "status w out = status w inner" using assms by (simp_all add: adopted_def)
  have "out < next_id (exec op w) \<and> status (exec op w) out = status w out"
    using settled_exec [of out w "status w out" op] a by simp
  moreover have "inner < next_id (exec op w) \<and> status (exec op w) inner = status w inner"
    using settled_exec [of inner w "status w inner" op] a by simp
  ultimately show ?thesis using a by (simp add: adopted_def)
qed

lemma step_keep:
  assumes "link out inner LF LR w" and "microtasks w = Task p k l # ts" and "out \<notin> targets l"
  shows "link out inner LF LR (run_microtask w)"
proof -
  let ?v = "payload (status w p) k"
  let ?w = "log_event (Invoked p k l ?v) (w\<lparr>microtasks := ts\<rparr>)"
  have 1: "link out inner LF LR ?w"
    using assms(1)
  proof (rule link_cong)
    show "settlers out (microtasks ?w) = settlers out (microtasks w)"
      using assms(2,3) by simp
    show "\<forall>t \<in> set (timers ?w). out \<notin> timer_targets t"
      using linkD(5) [OF assms(1)] by simp
  qed simp_all
  have 2: "\<forall>x \<in> targets l. x \<noteq> out" using assms(3) by auto
  have "link out inner LF LR (invoke ?w l ?v)"
  proof (rule guarded_invoke [where P = "link out inner LF LR" and Q = "\<lambda>x. x \<noteq> out"])
    show "link out inner LF LR ?w" by (rule 1)
    show "\<forall>x \<in> targets l. x \<noteq> out" by (rule 2)
    show "\<And>a w p V. allowed p V a \<Longrightarrow> p \<noteq> out \<Longrightarrow> link out inner LF LR w \<Longrightarrow>
            link out inner LF LR (apply_prim a w)"
      by (rule link_prim)
  qed
  then show ?thesis using assms(2) by (simp add: run_microtask_def Let_def)
qed

lemma step_deliver:
  assumes "link out inner LF LR w" and "forwards (status w inner)" and "delivers out LF LR"
    and "microtasks w = Task p k l # ts" and "out \<in> targets l"
  shows "adopted out inner (run_microtask w) \<and> status (run_microtask w) inner = status w inner"
proof -
  note b = linkD [OF assms(1)]
  have s: "settlers out (microtasks w) = Task p k l # settlers out ts"
    using assms(4,5) by simp
  let ?v = "payload (status w p) k"
  let ?w = "log_event (Invoked p k l ?v) (w\<lparr>microtasks := ts\<rparr>)"
  have w1: "status ?w x = status w x" "next_id ?w = next_id w" for x by simp_all
  have run: "run_microtask w = invoke ?w l ?v" using assms(4) by (simp add: run_microtask_def Let_def)
  show ?thesis
  proof (cases "status w inner")
    case Pending
    then show ?thesis using b(8) s by simp
  next
    case (Fulfilled v)
    then have t: "p = inner" "k = KFulfilled" "l = LF" using b(9) [of v] s by simp_all
    have pv: "plain v" using assms(2) Fulfilled by simp
    then have pl: "\<not> is_instance v" "then_of v = ThenAbsent \<or> then_of v = ThenNotCallable"
      by (simp_all add: plain_def)
    have v: "?v = v" using t Fulfilled by simp
    let ?w2 = "transition ?w out (Fulfilled v)"
    have u: "unpack ?w out v = ?w2" using b(4) pl by (simp add: unpack_plain)
    have w2: "status ?w2 out = Fulfilled v" "status ?w2 inner = Fulfilled v"
      "out < next_id ?w2" "inner < next_id ?w2"
      using b(1,2,3,4) Fulfilled by (simp_all add: status_transition)
    consider "LF = LResolve out" | o2 where "o2 \<noteq> out" "LF = LRun o2 (CbUnpack out)"
      using assms(3) unfolding delivers_def by blast
    then show ?thesis
    proof cases
      case 1
      then have "run_microtask w = ?w2" using run t v u by (simp add: resolve_fn_def)
      then show ?thesis using w2 Fulfilled by (simp add: adopted_def)
    next
      case 2
      then have r: "run_microtask w = unpack ?w2 o2 Undefined"
        using run t v u by (simp add: run_def)
      have "out < next_id (unpack ?w2 o2 Undefined) \<and> status (unpack ?w2 o2 Undefined) out = Fulfilled v"
        using w2 by (intro settled_unpack) simp_all
      moreover have "inner < next_id (unpack ?w2 o2 Undefined)
                     \<and> status (unpack ?w2 o2 Undefined) inner = Fulfilled v"
        using w2 by (intro settled_unpack) simp_all
      ultimately show ?thesis using r Fulfilled by (simp add: adopted_def)
    qed
  next
    case (Rejected r)
    then have t: "p = inner" "k = KRejected" "l = LR" using b(10) [of r] s by simp_all
    have v: "?v = r" using t Rejected by simp
    let ?w2 = "transition ?w out (Rejected r)"
    have w2: "status ?w2 out = Rejected r" "status ?w2 inner = Rejected r"
      "out < next_id ?w2" "inner < next_id ?w2"
      using b(1,2,3,4) Rejected by (simp_all add: status_transition)
    consider "LR = LReject out" | o2 where "o2 \<noteq> out" "LR = LRun o2 (CbTransReject out)"
      using assms(3) unfolding delivers_def by blast
    then show ?thesis
    proof cases
      case 1
      then have "run_microtask w = ?w2" using run t v by (simp add: reject_fn_def)
      then show ?thesis using w2 Rejected by (simp add: adopted_def)
    next
      case 2
      then have r: "run_microtask w = unpack ?w2 o2 Undefined"
        using run t v by (simp add: run_def)
      have "out < next_id (unpack ?w2 o2 Undefined) \<and> status (unpack ?w2 o2 Undefined) out = Rejected r"
        using w2 by (intro settled_unpack) simp_all
      moreover have "inner < next_id (unpack ?w2 o2 Undefined)
                     \<and> status (unpack ?w2 o2 Undefined) inner = Rejected r"
        using w2 by (intro settled_unpack) simp_all
      ultimately show ?thesis using r Rejected by (simp add: adopted_def)
    qed
  qed
qed

lemma follows_microtask:
  assumes "follows out inner LF LR w" and vp: "forwards (status w inner)"
  shows "follows out inner LF LR (run_microtask w)"
proof -
  have d: "delivers out LF LR"
    and la: "link out inner LF LR w \<or> adopted out inner w"
    using assms(1) by (simp_all add: follows_def)
  from la show ?thesis
  proof
    assume "adopted out inner w"
    then show ?thesis using adopted_exec [of out inner w OpMicrotask] d by (simp add: follows_def)
  next
    assume l: "link out inner LF LR w"
    show ?thesis
    proof (cases "microtasks w")
      case Nil
      then show ?thesis using assms(1) by (simp add: run_microtask_empty)
    next
      case (Cons t ts)
      obtain p k l' where t: "t = Task p k l'" by (cases t)
      show ?thesis
      proof (cases "out \<in> targets l'")
        case True
        then show ?thesis using step_deliver [OF l vp d] Cons t d by (simp add: follows_def)
      next
        case False
        then show ?thesis using step_keep [OF l] Cons t d by (simp add: follows_def)
      qed
    qed
  qed
qed

lemma follows_exec:
  assumes "follows out inner LF LR w" and "external out op"
    and "op = OpMicrotask \<Longrightarrow> forwards (status w inner)"
  shows "follows out inner LF LR (exec op w)"
proof (cases "op = OpMicrotask")
  case True
  then show ?thesis using follows_microtask [OF assms(1) assms(3)] by simp
next
  case False
  have d: "delivers out LF LR"
    and la: "link out inner LF LR w \<or> adopted out inner w"
    using assms(1) by (simp_all add: follows_def)
  from la show ?thesis
  proof
    assume "adopted out inner w"
    then show ?thesis using adopted_exec [of out inner w op] d by (simp add: follows_def)
  next
    assume l: "link out inner LF LR w"
    have g: "guard_ok (\<lambda>x. x \<noteq> out) op" using assms(2) by (cases op) auto
    have "link out inner LF LR (exec op w)"
      using l g
    proof (rule guarded_exec [where P = "link out inner LF LR" and Q = "\<lambda>x. x \<noteq> out"])
      show "\<And>a w p V. allowed p V a \<Longrightarrow> p \<noteq> out \<Longrightarrow> link out inner LF LR w \<Longrightarrow>
              link out inner LF LR (apply_prim a w)"
        by (rule link_prim)
      show "\<And>w. link out inner LF LR w \<Longrightarrow>
              link out inner LF LR (log_event (ExecutorCalled (next_id w)) (snd (alloc w)))
              \<and> next_id w \<noteq> out"
      proof -
        fix w assume l: "link out inner LF LR w"
        have "out < next_id w" using l by (rule linkD(1))
        then have "next_id w \<noteq> out" by simp
        then show "link out inner LF LR (log_event (ExecutorCalled (next_id w)) (snd (alloc w)))
              \<and> next_id w \<noteq> out"
          using link_alloc [OF l] by simp
      qed
      show "\<And>w q f g. link out inner LF LR w \<Longrightarrow>
              \<forall>x \<in> handler_targets f \<union> handler_targets g. x \<noteq> out \<Longrightarrow>
              link out inner LF LR (world_after w (then_op w q f g))"
      proof -
        fix w q f g
        assume l: "link out inner LF LR w"
          and h: "\<forall>x \<in> handler_targets f \<union> handler_targets g. x \<noteq> out"
        have "out \<notin> handler_targets f \<union> handler_targets g" using h by blast
        then show "link out inner LF LR (world_after w (then_op w q f g))"
          using l link_then by blast
      qed
      show "\<And>w. op = OpMicrotask \<Longrightarrow> link out inner LF LR w \<Longrightarrow> link out inner LF LR (run_microtask w)"
        using False by simp
      show "\<And>w fns acts ts. op = OpTimer \<Longrightarrow> link out inner LF LR w \<Longrightarrow>
              timers w = Timer fns acts # ts \<Longrightarrow>
              link out inner LF LR (w\<lparr>timers := ts\<rparr>) \<and> target fns \<noteq> out"
      proof -
        fix w fns acts ts
        assume l: "link out inner LF LR w" and t: "timers w = Timer fns acts # ts"
        have 5: "\<forall>t \<in> set (timers w). out \<notin> timer_targets t" using l by (rule linkD(5))
        have "link out inner LF LR (w\<lparr>timers := ts\<rparr>)"
          using l by (rule link_cong) (use 5 t in auto)
        moreover have "target fns \<noteq> out" using 5 t by auto
        ultimately show "link out inner LF LR (w\<lparr>timers := ts\<rparr>) \<and> target fns \<noteq> out" by simp
      qed
    qed
    then show ?thesis using d by (simp add: follows_def)
  qed
qed

subsection \<open>Delivery in finitely many steps\<close>

lemma run_microtasks_add:
  "run_microtasks (a + b) w = run_microtasks b (run_microtasks a w)"
  by (induction a arbitrary: w) simp_all

lemma adopted_run_microtasks:
  assumes "adopted out inner w"
  shows "adopted out inner (run_microtasks m w) \<and> status (run_microtasks m w) out = status w out"
  using assms
proof (induction m arbitrary: w)
  case 0
  then show ?case by simp
next
  case (Suc m)
  have "adopted out inner (run_microtask w) \<and> status (run_microtask w) out = status w out"
    using adopted_exec [OF Suc.prems, of OpMicrotask] by simp
  then show ?case using Suc.IH [of "run_microtask w"] by simp
qed

lemma deliver_after:
  assumes "forwards (status w inner)" and "delivers out LF LR" and "link out inner LF LR w"
    and "status w inner \<noteq> Pending"
    and "microtasks w = pre @ Task p k l # rest"
    and "\<forall>t \<in> set pre. out \<notin> task_caps t" and "out \<in> targets l"
  shows "adopted out inner (run_microtasks (Suc (length pre)) w)
         \<and> status (run_microtasks (Suc (length pre)) w) inner = status w inner"
  using assms(1,3,4,5,6)
proof (induction pre arbitrary: w rest)
  case Nil
  then show ?case
    using step_deliver [OF Nil.prems(2) Nil.prems(1) assms(2), of p k l rest] assms(7) by simp
next
  case (Cons t0 pre)
  obtain p0 k0 l0 where t0: "t0 = Task p0 k0 l0" by (cases t0)
  have m: "microtasks w = Task p0 k0 l0 # (pre @ Task p k l # rest)" using Cons.prems(4) t0 by simp
  have n0: "out \<notin> targets l0" using Cons.prems(5) t0 by simp
  let ?w = "run_microtask w"
  have l1: "link out inner LF LR ?w" using Cons.prems(2) m n0 by (rule step_keep)
  have i: "inner < next_id w" using Cons.prems(2) by (rule linkD(2))
  have s1: "status ?w inner = status w inner"
    using settled_exec [of inner w "status w inner" OpMicrotask] i Cons.prems(3) by simp
  have v1: "forwards (status ?w inner)" using Cons.prems(1) s1 by simp
  obtain new more where "microtasks ?w = tl (microtasks w) @ new" using run_microtask_grows by blast
  then have m1: "microtasks ?w = pre @ Task p k l # (rest @ new)" using m by simp
  have "adopted out inner (run_microtasks (Suc (length pre)) ?w)
         \<and> status (run_microtasks (Suc (length pre)) ?w) inner = status ?w inner"
    using v1 l1 _ m1 by (rule Cons.IH) (use s1 Cons.prems(3,5) in simp_all)
  then show ?case using s1 by simp
qed

lemma settlers_single:
  assumes "settlers out ts = [t]"
  shows "\<exists>pre rest. ts = pre @ t # rest \<and> (\<forall>u \<in> set pre. out \<notin> task_caps u) \<and> out \<in> task_caps t"
  using assms unfolding settlers_def by (auto simp: filter_eq_Cons_iff)

lemma eventually_adopted:
  assumes "follows out inner LF LR w" and "status w inner \<noteq> Pending"
    and vp: "forwards (status w inner)"
  shows "\<exists>n. \<forall>m \<ge> n. status (run_microtasks m w) out = status w inner"
proof -
  have d: "delivers out LF LR"
    and la: "link out inner LF LR w \<or> adopted out inner w"
    using assms(1) by (simp_all add: follows_def)
  from la show ?thesis
  proof
    assume a: "adopted out inner w"
    have e: "status w out = status w inner" using a by (simp add: adopted_def)
    have "status (run_microtasks m w) out = status w inner" for m
      using conjunct2 [OF adopted_run_microtasks [OF a, of m]] e by simp
    then show ?thesis by blast
  next
    assume l: "link out inner LF LR w"
    have "\<exists>t. settlers out (microtasks w) = [t]"
      using linkD(9,10) [OF l] assms(2) by (cases "status w inner") auto
    then obtain t pre rest where ts: "microtasks w = pre @ t # rest"
      "\<forall>u \<in> set pre. out \<notin> task_caps u" "out \<in> task_caps t"
      using settlers_single by blast
    obtain p k l' where t: "t = Task p k l'" by (cases t)
    let ?n = "Suc (length pre)"
    have a: "adopted out inner (run_microtasks ?n w)"
      and si: "status (run_microtasks ?n w) inner = status w inner"
      using deliver_after [OF vp d l assms(2), of pre p k l' rest] ts t by simp_all
    have "status (run_microtasks m w) out = status w inner" if "?n \<le> m" for m
    proof -
      have "run_microtasks m w = run_microtasks (m - ?n) (run_microtasks ?n w)"
        using that run_microtasks_add [of ?n "m - ?n" w] by simp
      moreover have "status (run_microtasks ?n w) out = status (run_microtasks ?n w) inner"
        using a by (simp add: adopted_def)
      ultimately show ?thesis
        using conjunct2 [OF adopted_run_microtasks [OF a, of "m - ?n"]] si by simp
    qed
    then show ?thesis by blast
  qed
qed

lemma follows_assign:
  assumes "follows out inner LF LR w"
  shows "follows out inner LF LR (assign_then i m w)"
  using assms link_assign adopted_assign unfolding follows_def by blast

lemma follows_proceeds:
  assumes "proceeds out inner s w" and "follows out inner LF LR s"
  shows "follows out inner LF LR w"
  using assms
proof (induction rule: proceeds.induct)
  case proceeds_refl
  then show ?case by simp
next
  case (proceeds_exec w op)
  then show ?case using follows_exec [of out inner LF LR w op] by blast
next
  case (proceeds_assign w i m)
  then show ?case by (simp add: follows_assign)
qed


subsection \<open>How a promise comes to follow another\<close>

lemma refs_ok_sealed:
  assumes "refs_ok s" and "next_id s \<le> out"
  shows "sealed out s"
proof -
  have l: "\<forall>x. \<forall>l \<in> set (fulfilledListeners (heap s x)) \<union> set (rejectedListeners (heap s x)).
          \<forall>q \<in> targets l. q < next_id s"
    and m: "\<forall>t \<in> set (microtasks s). \<forall>q \<in> task_targets t. q < next_id s"
    and tm: "\<forall>t \<in> set (timers s). \<forall>q \<in> timer_targets t. q < next_id s"
    using assms(1) unfolding refs_ok_def by blast+
  have c: "\<forall>l \<in> set ls. \<forall>q \<in> targets l. q < next_id s \<Longrightarrow> caps out ls = []" for ls
    using assms(2) by (induction ls) auto
  have "settlers out ts = []" if "\<forall>t \<in> set ts. \<forall>q \<in> task_targets t. q < next_id s" for ts
    using that assms(2)
  proof (induction ts)
    case (Cons t ts)
    then show ?case by (cases t) auto
  qed simp
  then have "settlers out (microtasks s) = []" using m by blast
  moreover have "caps out (fulfilledListeners (heap s x)) = []" for x
    by (rule c) (use l in blast)
  moreover have "caps out (rejectedListeners (heap s x)) = []" for x
    by (rule c) (use l in blast)
  moreover have "\<forall>t \<in> set (timers s). out \<notin> timer_targets t" using tm assms(2) by fastforce
  ultimately show ?thesis by (simp add: sealed_def)
qed

lemma link_after_then:
  assumes "sealed (next_id s) s" and "src < next_id s"
  shows "link (next_id s) src (LResolve (next_id s)) (LReject (next_id s))
           (world_after s (then_op s src (NonFunction a) (NonFunction b)))"
proof (rule linkI)
  let ?n = "next_id s"
  let ?w = "world_after s (then_op s src (NonFunction a) (NonFunction b))"
  have c: "caps ?n (fulfilledListeners (heap s x)) = []" "caps ?n (rejectedListeners (heap s x)) = []"
    "settlers ?n (microtasks s) = []" "\<forall>t \<in> set (timers s). ?n \<notin> timer_targets t" for x
    using assms(1) by (simp_all add: sealed_def)
  have sn: "src \<noteq> ?n" using assms(2) by simp
  show "?n < next_id ?w" "src < next_id ?w" using assms(2) by simp_all
  show "src \<noteq> ?n" by (rule sn)
  show "status ?w ?n = Pending" by (simp add: status_then_op)
  show "\<forall>t \<in> set (timers ?w). ?n \<notin> timer_targets t" using c(4) by simp
  show "\<And>x. x \<noteq> src \<Longrightarrow> caps ?n (fulfilledListeners (heap ?w x)) = []"
    using c(1) by (simp add: listeners_then_op)
  show "\<And>x. x \<noteq> src \<Longrightarrow> caps ?n (rejectedListeners (heap ?w x)) = []"
    using c(2) by (simp add: listeners_then_op)
  show "status ?w src = Pending \<Longrightarrow> caps ?n (fulfilledListeners (heap ?w src)) = [LResolve ?n]
        \<and> caps ?n (rejectedListeners (heap ?w src)) = [LReject ?n] \<and> settlers ?n (microtasks ?w) = []"
    using sn c by (simp add: status_then_op listeners_then_op microtasks_then_op)
  show "\<And>v. status ?w src = Fulfilled v \<Longrightarrow> caps ?n (fulfilledListeners (heap ?w src)) = []
        \<and> caps ?n (rejectedListeners (heap ?w src)) = []
        \<and> settlers ?n (microtasks ?w) = [Task src KFulfilled (LResolve ?n)]"
    using sn c by (simp add: status_then_op listeners_then_op microtasks_then_op settlers_map_Task)
  show "\<And>r. status ?w src = Rejected r \<Longrightarrow> caps ?n (fulfilledListeners (heap ?w src)) = []
        \<and> caps ?n (rejectedListeners (heap ?w src)) = []
        \<and> settlers ?n (microtasks ?w) = [Task src KRejected (LReject ?n)]"
    using sn c by (simp add: status_then_op listeners_then_op microtasks_then_op settlers_map_Task)
qed


subsection \<open>Handlers that are not functions\<close>

lemma deliver_within:
  assumes "forwards (status w inner)" and "delivers out LF LR" and "link out inner LF LR w"
    and "status w inner \<noteq> Pending"
    and "microtasks w = pre @ Task p k l # rest"
    and "\<forall>t \<in> set pre. out \<notin> task_caps t" and "out \<in> targets l"
    and "length pre < m"
  shows "status (run_microtasks m w) out = status w inner"
proof -
  let ?n = "Suc (length pre)"
  have a: "adopted out inner (run_microtasks ?n w)"
    and si: "status (run_microtasks ?n w) inner = status w inner"
    using deliver_after [OF assms(1-7)] by simp_all
  have "run_microtasks m w = run_microtasks (m - ?n) (run_microtasks ?n w)"
    using assms(8) run_microtasks_add [of ?n "m - ?n" w] by simp
  moreover have "status (run_microtasks ?n w) out = status (run_microtasks ?n w) inner"
    using a by (simp add: adopted_def)
  ultimately show ?thesis
    using conjunct2 [OF adopted_run_microtasks [OF a, of "m - ?n"]] si by simp
qed

lemma sealed_no_settler: "sealed out s \<Longrightarrow> \<forall>t \<in> set (microtasks s). out \<notin> task_caps t"
  by (simp add: sealed_def settlers_def filter_empty_conv)

lemma reachable_settled_exists:
  assumes "reachable s" and "status s p \<noteq> Pending"
  shows "p < next_id s"
proof -
  have "refs_ok s" using reachable_inv [OF assms(1)] by (simp add: wf_def)
  then have "\<forall>p. next_id s \<le> p \<longrightarrow> status s p = Pending" unfolding refs_ok_def by blast
  then show ?thesis using assms(2) by (meson not_le)
qed

lemma follows_after_then:
  assumes "reachable s" and "src < next_id s"
  shows "follows (next_id s) src (LResolve (next_id s)) (LReject (next_id s))
           (world_after s (then_op s src (NonFunction a) (NonFunction b)))"
proof -
  have i: "wf s" using reachable_inv [OF assms(1)] by simp
  have "sealed (next_id s) s" using i by (simp add: wf_def refs_ok_sealed)
  then have "link (next_id s) src (LResolve (next_id s)) (LReject (next_id s))
           (world_after s (then_op s src (NonFunction a) (NonFunction b)))"
    using assms(2) by (rule link_after_then)
  then show ?thesis by (simp add: follows_def delivers_def)
qed

lemma passthrough_now:
  assumes "reachable s" and "status s src \<noteq> Pending" and "length (microtasks s) < m"
    and fw: "forwards (status s src)"
  shows "status (run_microtasks m (world_after s (then_op s src (NonFunction a) (NonFunction b))))
           (next_id s) = status s src"
proof -
  let ?n = "next_id s"
  let ?w = "world_after s (then_op s src (NonFunction a) (NonFunction b))"
  have src: "src < ?n" using assms(1,2) by (rule reachable_settled_exists)
  have f: "follows ?n src (LResolve ?n) (LReject ?n) ?w" using assms(1) src by (rule follows_after_then)
  have i: "wf s" using reachable_inv [OF assms(1)] by simp
  have sl: "sealed ?n s" using i by (simp add: wf_def refs_ok_sealed)
  have c: "caps ?n (fulfilledListeners (heap s x)) = []" "caps ?n (rejectedListeners (heap s x)) = []" for x
    using sl by (simp_all add: sealed_def)
  have st: "status ?w src = status s src" using src by (simp add: status_then_op)
  have d: "delivers ?n (LResolve ?n) (LReject ?n)"
    and la: "link ?n src (LResolve ?n) (LReject ?n) ?w \<or> adopted ?n src ?w"
    using f by (simp_all add: follows_def)
  have vp: "forwards (status ?w src)" using fw st by simp
  have "\<not> adopted ?n src ?w" using assms(2) st by (simp add: adopted_def status_then_op)
  then have l: "link ?n src (LResolve ?n) (LReject ?n) ?w" using la by simp
  have "\<exists>k l rest. microtasks ?w = microtasks s @ Task src k l # rest \<and> ?n \<in> targets l"
  proof (cases "status s src")
    case Pending
    then show ?thesis using assms(2) by simp
  next
    case (Fulfilled v)
    have "set (fulfilledListeners (heap s src)) = {}"
      using reaction_invD(2) [of s src v] i Fulfilled queue_inv_def reachable_inv [OF assms(1)]
      by (simp add: queue_inv_def)
    then show ?thesis using Fulfilled src by (simp add: microtasks_then_op)
  next
    case (Rejected r)
    have "set (rejectedListeners (heap s src)) = {}"
      using reachable_inv [OF assms(1)] Rejected by (simp add: queue_inv_def)
    then show ?thesis using Rejected src by (simp add: microtasks_then_op)
  qed
  then obtain k l rest where m: "microtasks ?w = microtasks s @ Task src k l # rest" "?n \<in> targets l"
    by blast
  have "status (run_microtasks m ?w) ?n = status ?w src"
    using vp d l _ m(1) sealed_no_settler [OF sl] m(2) assms(3)
    by (rule deliver_within) (use st assms(2) in simp)
  then show ?thesis using st by simp
qed

lemma reachable_chained_settled: "reachable chained_settled"
proof -
  have 1: "reachable (exec (OpNew (ExecutorFn [])) init_world)"
    by (rule reachable_exec [OF reachable_init]) simp
  have 2: "reachable chained"
    unfolding chained_def by (rule reachable_exec [OF 1]) simp
  show ?thesis
    unfolding chained_settled_def by (rule reachable_exec [OF 2]) (simp add: chained_fields)
qed

subsection \<open>Adoption by the static factory\<close>







lemma promise_resolve_eq:
  "promise_resolve v s =
     Inr (next_id s, unpack (log_event (ExecutorCalled (next_id s)) (snd (alloc s))) (next_id s) v)"
  by (simp add: promise_resolve_def construct_ExecutorFn resolve_fn_def)





subsection \<open>The draft module\<close>

lemma draft_set_fields [simp]:
  "dheap (draft_set d p st) q = (if q = p then st else dheap d q)"
  "dnext_id (draft_set d p st) = dnext_id d"
  "dtimers (draft_set d p st) = dtimers d"
  by (simp_all add: draft_set_def)

lemma draft_status_set [simp]:
  "draft_status (draft_set d p st) q = (if q = p then settlement st else draft_status d q)"
  by (simp add: draft_status_def)

lemma draft_status_timers [simp]: "draft_status (d\<lparr>dtimers := ts\<rparr>) q = draft_status d q"
  by (simp add: draft_status_def)

lemma draft_open_timers [simp]: "draft_open (d\<lparr>dtimers := ts\<rparr>) p = draft_open d p"
  by (simp add: draft_open_def)


lemma isThenable_instance [simp]: "isThenable (PromiseRef q) = Inr False"
  by simp






declare draft_resolve.simps [simp del]


lemma draft_deferred_fields [simp]:
  "dheap draft_deferred p = DPending None"
  "draft_open draft_deferred p"
  "draft_status draft_deferred p = Pending"
  by (simp_all add: draft_deferred_def draft_construct_def draft_init_def draft_open_def
      draft_status_def Let_def)

lemma one_deferred_fields [simp]:
  "next_id one_deferred = 1"
  "status one_deferred p = Pending"
  by (simp_all add: one_deferred_def new_promise_empty world_after_def)



subsection \<open>Assignments to an object\<close>

lemma holder_fields:
  "next_id holder = 1"
  "status holder p = (if p = 0 then Fulfilled (Obj TObject 5 ThenAbsent) else Pending)"
  "microtasks holder = []"
  "timers holder = []"
  "fulfilledListeners (heap holder p) = []"
  "rejectedListeners (heap holder p) = []"
  "next_latch holder = 0"
  by (simp_all add: holder_def promise_resolve_eq world_after_def unpack_plain
      status_transition microtasks_transition listeners_transition due_def fresh_promise_def)

lemma hijacked_fields:
  "next_id hijacked = 1"
  "status hijacked p = (if p = 0 then Fulfilled (Obj TObject 5 hijack) else Pending)"
  "microtasks hijacked = []"
  "timers hijacked = []"
  "fulfilledListeners (heap hijacked p) = []"
  "rejectedListeners (heap hijacked p) = []"
  by (simp_all add: hijacked_def holder_fields)

lemma unpack_hijack:
  assumes "p < next_id s" and "status s p = Pending"
  shows "status (unpack s p (Obj TObject 5 hijack)) q
           = (if q = p then Rejected (Str ''hijacked'') else status s q)"
proof -
  let ?l = "next_latch s"
  have "unpack s p (Obj TObject 5 hijack)
          = transition (set_called ?l (snd (new_latch s))) p (Rejected (Str ''hijacked''))"
    using assms(2)
    by (simp add: hijack_def unpack_then_fn Let_def call_reject_def new_latch_def)
  then show ?thesis using assms(2) by (simp add: status_transition)
qed

subsection \<open>Two scenarios with an assignment\<close>

lemma hijacked_then_fields:
  "status hijacked_then p =
     (if p = 0 then Fulfilled (Obj TObject 5 hijack)
      else if p = 1 then Rejected (Str ''hijacked'') else Pending)"
proof -
  let ?t = "exec (OpThen 0 (NonFunction Undefined) (NonFunction Undefined)) hijacked"
  let ?v = "Obj TObject 5 hijack"
  let ?w = "log_event (Invoked 0 KFulfilled (LResolve 1) ?v) (?t\<lparr>microtasks := []\<rparr>)"
  have m: "microtasks ?t = [Task 0 KFulfilled (LResolve 1)]"
    by (simp add: microtasks_then_op hijacked_fields)
  have s: "status ?t q = (if q = 0 then Fulfilled ?v else Pending)" for q
    by (simp add: status_then_op hijacked_fields)
  have r: "hijacked_then = unpack ?w 1 ?v"
    unfolding hijacked_then_def using m s by (simp add: run_microtask_def Let_def resolve_fn_def)
  have "status (unpack ?w 1 ?v) p = (if p = 1 then Rejected (Str ''hijacked'') else status ?w p)"
    by (rule unpack_hijack) (simp_all add: hijacked_fields status_then_op)
  then show ?thesis unfolding r using s by simp
qed


subsection \<open>Where rejection reasons come from\<close>

lemma origin_refl [simp]: "origin_ok V s s"
  by (simp add: origin_ok_def)

lemma origin_same:
  assumes "origin_ok V s w" and "\<And>q. status w' q = status w q \<or> status w' q = Pending"
  shows "origin_ok V s w'"
  unfolding origin_ok_def
proof (intro allI impI)
  fix q r
  assume a: "status w' q = Rejected r"
  then have "status w q = Rejected r" using assms(2) [of q] by auto
  then show "status s q = Rejected r \<or> r \<in> V \<or> (r = cycle_error \<and> PromiseRef q \<in> V)"
    using assms(1) by (simp add: origin_ok_def)
qed

lemma origin_transition:
  assumes "origin_ok V s w" and "\<And>r. st = Rejected r \<Longrightarrow> r \<in> V \<or> (r = cycle_error \<and> PromiseRef p \<in> V)"
  shows "origin_ok V s (transition w p st)"
  unfolding origin_ok_def
proof (intro allI impI)
  fix q r
  assume a: "status (transition w p st) q = Rejected r"
  show "status s q = Rejected r \<or> r \<in> V \<or> (r = cycle_error \<and> PromiseRef q \<in> V)"
  proof (cases "q = p \<and> status w p = Pending")
    case True
    then have "st = Rejected r" using a by (simp add: status_transition)
    then show ?thesis using assms(2) True by blast
  next
    case False
    then have "status w q = Rejected r" using a by (auto simp: status_transition)
    then show ?thesis using assms(1) by (simp add: origin_ok_def)
  qed
qed

lemma origin_then:
  assumes "origin_ok V s w"
  shows "origin_ok V s (world_after w (then_op w q f g))"
  using assms by (rule origin_same) (simp add: status_then_op)

lemma origin_prim:
  assumes "allowed p V' a" and "V' \<subseteq> V" and "origin_ok V s w"
  shows "origin_ok V s (apply_prim a w)"
proof (cases a)
  case (PTransition p' st)
  then have "p' = p" and "\<And>r. st = Rejected r \<Longrightarrow> r \<in> V' \<or> (r = cycle_error \<and> PromiseRef p \<in> V')"
    using assms(1) by auto
  then show ?thesis using PTransition assms(2,3) by (auto intro!: origin_transition)
next
  case (PThen q f g)
  then show ?thesis using assms(3) origin_then [of V s w q f g]
    by (simp add: apply_prim_PThen del: apply_prim.simps)
qed (use assms(3) in \<open>auto intro: origin_same\<close>)

lemma origin_unpack:
  assumes "origin_ok V s w" and "subvals v \<subseteq> V"
  shows "origin_ok V s (unpack w p v)"
  using unpack_decomp(1) [of p v w] assms(1)
proof (rule composed_induct)
  fix a w
  assume a: "allowed p (subvals v) a" and b: "origin_ok V s w"
  show "origin_ok V s (apply_prim a w)" using a assms(2) b by (rule origin_prim)
qed

lemma origin_run_actions:
  assumes "origin_ok V s w" and "(\<Union>a \<in> set acts. subvals_action a) \<subseteq> V"
  shows "origin_ok V s (fst (run_actions w fns acts))"
  using unpack_decomp(3) [of fns acts w] assms(1)
proof (rule composed_induct)
  fix a w
  assume a: "allowed (target fns) (\<Union>a \<in> set acts. subvals_action a) a" and b: "origin_ok V s w"
  show "origin_ok V s (apply_prim a w)" using a assms(2) b by (rule origin_prim)
qed

lemma origin_unpack_undefined:
  assumes "origin_ok V s w"
  shows "origin_ok V s (unpack w p Undefined)"
proof (cases "status w p = Pending")
  case True
  have "origin_ok V s (transition w p (Fulfilled Undefined))"
    using assms by (rule origin_transition) simp
  then show ?thesis using True by (simp add: unpack_plain)
next
  case False
  then show ?thesis using assms by simp
qed

lemma origin_reject:
  assumes "origin_ok V s w" and "r \<in> V"
  shows "origin_ok V s (transition w p (Rejected r))"
  using assms(1) by (rule origin_transition) (use assms(2) in simp)

lemma origin_alloc:
  assumes "origin_ok V s w"
  shows "origin_ok V s (log_event e (snd (alloc w)))"
  using assms by (rule origin_same) simp

lemma origin_construct:
  assumes "origin_ok V s w"
    and "\<And>this w'. origin_ok V s w' \<Longrightarrow> origin_ok V s (fst (body this w'))"
    and "\<And>this w' e. snd (body this w') = Some e \<Longrightarrow> e \<in> V"
  shows "origin_ok V s (world_after w (construct (ExecutorFn body) w))"
proof -
  let ?a = "log_event (ExecutorCalled (next_id w)) (snd (alloc w))"
  have b: "origin_ok V s (fst (body (next_id w) ?a))"
    using assms(1) by (intro assms(2) origin_alloc)
  show ?thesis
  proof (cases "snd (body (next_id w) ?a)")
    case None
    then show ?thesis using b by (simp add: world_after_def construct_ExecutorFn)
  next
    case (Some e)
    then have "e \<in> V" by (rule assms(3))
    then have "origin_ok V s (transition (fst (body (next_id w) ?a)) (next_id w) (Rejected e))"
      using b by (intro origin_reject)
    then show ?thesis using Some by (simp add: world_after_def construct_ExecutorFn reject_fn_def)
  qed
qed

lemma origin_invoke:
  assumes "origin_ok V s w" and "listener_values l v \<subseteq> V"
  shows "origin_ok V s (invoke w l v)"
proof (cases l)
  case (LRun out cb)
  show ?thesis
  proof (cases cb)
    case (CbUnpack p)
    have "subvals v \<subseteq> V" using assms(2) LRun CbUnpack by simp
    then have "origin_ok V s (unpack w p v)" using assms(1) by (intro origin_unpack)
    then show ?thesis using LRun CbUnpack by (simp add: run_def origin_unpack_undefined)
  next
    case (CbTransReject p)
    have "v \<in> V" using assms(2) LRun CbTransReject by auto
    then have "origin_ok V s (transition w p (Rejected v))"
      using assms(1) by (intro origin_reject)
    then show ?thesis using LRun CbTransReject by (simp add: run_def origin_unpack_undefined)
  next
    case (CbUser f)
    show ?thesis
    proof (cases "f v")
      case (Return x)
      then have "subvals x \<subseteq> V" using assms(2) LRun CbUser by simp
      then show ?thesis using LRun CbUser Return assms(1) by (simp add: run_def origin_unpack)
    next
      case (Raise e)
      then have "e \<in> V" using assms(2) LRun CbUser by auto
      then show ?thesis using LRun CbUser Raise assms(1) by (simp add: run_def origin_reject)
    qed
  qed
next
  case (LResolve p)
  then show ?thesis using assms by (simp add: resolve_fn_def origin_unpack)
next
  case (LReject p)
  have "v \<in> V" using assms(2) LReject by auto
  then show ?thesis using LReject assms(1) by (simp add: reject_fn_def origin_reject)
qed

lemma origin_exec: "origin_ok (forwarded s op) s (exec op s)"
proof (cases op)
  case (OpNew ex)
  show ?thesis
  proof (cases ex)
    case (NotAFunction conv)
    then show ?thesis using OpNew by (simp add: new_promise_NotAFunction world_after_def)
  next
    case (ExecutorFn acts)
    let ?V = "\<Union>a \<in> set acts. subvals_action a"
    have "origin_ok ?V s (world_after s (construct (ExecutorFn (\<lambda>this w. run_actions w (Own this) acts)) s))"
    proof (rule origin_construct)
      show "origin_ok ?V s s" by simp
      show "\<And>this w'. origin_ok ?V s w' \<Longrightarrow> origin_ok ?V s (fst (run_actions w' (Own this) acts))"
        by (rule origin_run_actions) simp_all
      show "\<And>this w' e. snd (run_actions w' (Own this) acts) = Some e \<Longrightarrow> e \<in> ?V"
        using thrown_subvals by simp
    qed
    then show ?thesis using OpNew ExecutorFn by (simp add: new_promise_def)
  qed
next
  case (OpThen p f g)
  then show ?thesis by (simp add: origin_then)
next
  case (OpCatch p g)
  then show ?thesis by (simp add: catch_op_def origin_then)
next
  case (OpStaticResolve v)
  have "origin_ok (subvals v) s
          (world_after s (construct (ExecutorFn (\<lambda>this w. (resolve_fn w this v, None))) s))"
    by (rule origin_construct) (simp_all add: resolve_fn_def origin_unpack)
  then show ?thesis using OpStaticResolve by (simp add: promise_resolve_def)
next
  case (OpStaticReject r)
  have "origin_ok (subvals r) s
          (world_after s (construct (ExecutorFn (\<lambda>this w. (reject_fn w this r, None))) s))"
    by (rule origin_construct) (simp_all add: reject_fn_def origin_reject)
  then show ?thesis using OpStaticReject by (simp add: promise_reject_def)
next
  case (OpResolve p v)
  then show ?thesis by (simp add: resolve_fn_def origin_unpack)
next
  case (OpReject p r)
  then show ?thesis by (simp add: reject_fn_def origin_reject)
next
  case OpMicrotask
  show ?thesis
  proof (cases "microtasks s")
    case Nil
    then show ?thesis using OpMicrotask by (simp add: run_microtask_def)
  next
    case (Cons t ts)
    obtain p k l where t: "t = Task p k l" by (cases t)
    let ?v = "payload (status s p) k"
    let ?w = "log_event (Invoked p k l ?v) (s\<lparr>microtasks := ts\<rparr>)"
    have "origin_ok (listener_values l ?v) s ?w"
      by (rule origin_same [of _ s s]) simp_all
    then have "origin_ok (listener_values l ?v) s (invoke ?w l ?v)"
      by (rule origin_invoke) simp
    then show ?thesis using OpMicrotask Cons t by (simp add: run_microtask_def Let_def)
  qed
next
  case OpTimer
  show ?thesis
  proof (cases "timers s")
    case Nil
    then show ?thesis using OpTimer by (simp add: run_timer_def)
  next
    case (Cons t ts)
    obtain fns acts where t: "t = Timer fns acts" by (cases t)
    let ?V = "\<Union>a \<in> set acts. subvals_action a"
    have "origin_ok ?V s (s\<lparr>timers := ts\<rparr>)"
      by (rule origin_same [of _ s s]) simp_all
    then have "origin_ok ?V s (fst (run_actions (s\<lparr>timers := ts\<rparr>) fns acts))"
      by (rule origin_run_actions) simp
    then show ?thesis using OpTimer Cons t by (simp add: run_timer_def)
  qed
qed

subsection \<open>What a piece of the program leaves of latches and timers\<close>


lemma lframe_refl [simp]: "lframe F s s"
  by (simp add: lframe_def)










subsection \<open>Latches and timers through every operation\<close>














subsection \<open>A promise that only timers can settle\<close>

lemma mine_simps [simp]:
  "mine out [] = []"
  "mine out (Timer fns acts # ts) = (if target fns = out then Timer fns acts # mine out ts else mine out ts)"
  "mine out (ts @ ts') = mine out ts @ mine out ts'"
  by (auto simp: mine_def)










subsection \<open>A promise that waits for a timer\<close>













subsection \<open>Operations fulfil with plain values only\<close>

lemma forwards_prim:
  assumes "allowed p V a" and "forwards (status w x)"
  shows "forwards (status (apply_prim a w) x)"
proof (cases a)
  case (PTransition p' st)
  then show ?thesis using assms
    by (cases st) (auto simp: status_transition)
next
  case (PThen q f g)
  then show ?thesis using assms(2)
    by (auto simp: apply_prim_PThen status_then_op simp del: apply_prim.simps)
qed (use assms(2) in simp_all)

lemma forwards_exec:
  assumes "forwards (status s x)"
  shows "forwards (status (exec op s) x)"
proof (rule guarded_exec [where P = "\<lambda>w. forwards (status w x)" and Q = "\<lambda>_. True"])
  show "forwards (status s x)" by (rule assms)
  show "guard_ok (\<lambda>_. True) op" by (cases op) simp_all
  show "\<And>a w p V. allowed p V a \<Longrightarrow> True \<Longrightarrow> forwards (status w x) \<Longrightarrow>
          forwards (status (apply_prim a w) x)"
    by (rule forwards_prim)
  show "\<And>w. forwards (status w x) \<Longrightarrow>
          forwards (status (log_event (ExecutorCalled (next_id w)) (snd (alloc w))) x) \<and> True"
    by simp
  show "\<And>w q f g. forwards (status w x) \<Longrightarrow> \<forall>x \<in> handler_targets f \<union> handler_targets g. True \<Longrightarrow>
          forwards (status (world_after w (then_op w q f g)) x)"
    by (simp add: status_then_op)
  show "\<And>w fns acts ts. op = OpTimer \<Longrightarrow> forwards (status w x) \<Longrightarrow> timers w = Timer fns acts # ts \<Longrightarrow>
          forwards (status (w\<lparr>timers := ts\<rparr>) x) \<and> True"
    by simp
  show "\<And>w. op = OpMicrotask \<Longrightarrow> forwards (status w x) \<Longrightarrow> forwards (status (run_microtask w) x)"
  proof -
    fix w assume w: "forwards (status w x)"
    show "forwards (status (run_microtask w) x)"
    proof (cases "microtasks w")
      case Nil
      then show ?thesis using w by (simp add: run_microtask_def)
    next
      case (Cons t ts)
      obtain p k l where t: "t = Task p k l" by (cases t)
      let ?v = "payload (status w p) k"
      let ?w = "log_event (Invoked p k l ?v) (w\<lparr>microtasks := ts\<rparr>)"
      have "forwards (status (invoke ?w l ?v) x)"
      proof (rule guarded_invoke [where P = "\<lambda>w. forwards (status w x)" and Q = "\<lambda>_. True"])
        show "forwards (status ?w x)" using w by simp
        show "\<forall>x \<in> targets l. True" by simp
        show "\<And>a w p V. allowed p V a \<Longrightarrow> True \<Longrightarrow> forwards (status w x) \<Longrightarrow>
                forwards (status (apply_prim a w) x)"
          by (rule forwards_prim)
      qed
      then show ?thesis using Cons t by (simp add: run_microtask_def Let_def)
    qed
  qed
qed

section \<open>Settling more than once\<close>




section \<open>The two listener arrays\<close>

text \<open>
  Claim C9. The two listener arrays of a settled promise are empty: this holds in the first
  world and every operation (the public operations, the two settling functions, and the
  steps of the host that run a microtask or fire a timer) keeps it. So for a promise that
  exists and is settled, an operation leaves the status as it is and both arrays empty:
  between operations the arrays gain entries only while the promise is pending. In
  particular \<^verbatim>\<open>then\<close> on a settled promise leaves its arrays empty: what it pushes goes
  to the microtask queue in the same call.
\<close>

theorem queue_invariant_preserved:
  "queue_inv init_world
   \<and> (queue_inv s \<longrightarrow> queue_inv (exec op s))
   \<and> (queue_inv s \<and> p < next_id s \<and> status s p \<noteq> Pending \<longrightarrow>
        status (exec op s) p = status s p
        \<and> fulfilledListeners (heap (exec op s) p) = []
        \<and> rejectedListeners (heap (exec op s) p) = [])
   \<and> (queue_inv s \<and> p < next_id s \<and> status s p \<noteq> Pending \<longrightarrow>
        (\<exists>out s'. then_op s p f g = Inr (out, s')
           \<and> fulfilledListeners (heap s' p) = [] \<and> rejectedListeners (heap s' p) = []
           \<and> length (microtasks s') = Suc (length (microtasks s))))"
proof (intro conjI impI)
  show "queue_inv init_world" by (rule queue_inv_init)
next
  assume "queue_inv s"
  then show "queue_inv (exec op s)" by (rule queue_inv_exec)
next
  assume a: "queue_inv s \<and> p < next_id s \<and> status s p \<noteq> Pending"
  then have st: "status (exec op s) p = status s p"
    using settled_exec [of p s "status s p" op] by simp
  have q: "queue_inv (exec op s)" using a queue_inv_exec by blast
  show "status (exec op s) p = status s p" by (rule st)
  show "fulfilledListeners (heap (exec op s) p) = []"
    using q st a unfolding queue_inv_def by metis
  show "rejectedListeners (heap (exec op s) p) = []"
    using q st a unfolding queue_inv_def by metis
next
  assume a: "queue_inv s \<and> p < next_id s \<and> status s p \<noteq> Pending"
  then have e: "fulfilledListeners (heap s p) = []" "rejectedListeners (heap s p) = []"
    unfolding queue_inv_def by simp_all
  show "\<exists>out s'. then_op s p f g = Inr (out, s')
           \<and> fulfilledListeners (heap s' p) = [] \<and> rejectedListeners (heap s' p) = []
           \<and> length (microtasks s') = Suc (length (microtasks s))"
    using a e by (cases "status s p") (simp_all add: then_op_eq due_def)
qed

theorem queue_invariant_preserved_witness:
  "queue_inv (exec (OpThen 0 (NonFunction Undefined) (NonFunction Undefined))
                (exec (OpStaticResolve (Num 42)) init_world))
   \<and> status (exec (OpThen 0 (NonFunction Undefined) (NonFunction Undefined))
                (exec (OpStaticResolve (Num 42)) init_world)) 0 = Fulfilled (Num 42)
   \<and> fulfilledListeners (heap (exec (OpThen 0 (NonFunction Undefined) (NonFunction Undefined))
                (exec (OpStaticResolve (Num 42)) init_world)) 0) = []
   \<and> rejectedListeners (heap (exec (OpThen 0 (NonFunction Undefined) (NonFunction Undefined))
                (exec (OpStaticResolve (Num 42)) init_world)) 0) = []"
proof -
  let ?s = "exec (OpStaticResolve (Num 42)) init_world"
  have q: "queue_inv ?s" using queue_inv_init by (rule queue_inv_exec)
  have n: "0 < next_id ?s"
    by (simp add: promise_resolve_def world_after_def construct_ExecutorFn resolve_fn_def
        unpack_plain)
  have st: "status ?s 0 = Fulfilled (Num 42)"
    by (simp add: promise_resolve_def world_after_def construct_ExecutorFn resolve_fn_def
        unpack_plain status_transition)
  show ?thesis
    using queue_invariant_preserved
            [of ?s "OpThen 0 (NonFunction Undefined) (NonFunction Undefined)" 0
               "NonFunction Undefined" "NonFunction Undefined"] q n st
    by simp
qed

section \<open>Resolving a promise with itself\<close>

text \<open>
  Claim C3. When the settling function of a pending promise is called with the promise
  itself, the promise makes the transition to rejected with the error
  \<^verbatim>\<open>TypeError("Chaining cycle detected for promise")\<close>. The call returns a world: the
  resolution procedure is a total function and has no exception to hand to its caller. And
  this is the only reason the class makes up, in the resolution procedure and everywhere
  else. Whatever the candidate, a reason with which the resolution procedure rejects the
  promise is a value that occurs in the candidate (the candidate handed it over), or it is
  the cycle error and the promise itself occurs in the candidate as something to resolve
  with. And whatever the operation (the constructor with its catch, \<^verbatim>\<open>then\<close> and
  \<^verbatim>\<open>catch\<close>, the static factories, the two settling functions, a step of the microtask
  queue with the catch of \<^verbatim>\<open>#run\<close>, a timer), a promise that is rejected after it was
  rejected with the same reason before it, or its reason is a value the operation forwards
  (one its caller handed in, the value or reason a task reads from its promise, what a
  callback returns or throws, one in the script that runs), or its reason is the cycle
  error and the promise itself is among the values the operation forwards.
\<close>

theorem self_resolution_rejects:
  "(status s p = Pending \<longrightarrow>
      resolve_fn s p (PromiseRef p) = transition s p (Rejected cycle_error)
      \<and> status (resolve_fn s p (PromiseRef p)) p = Rejected cycle_error
      \<and> status (exec (OpResolve p (PromiseRef p)) s) p = Rejected cycle_error)
   \<and> (status s p = Pending \<and> status (resolve_fn s p v) p = Rejected r \<longrightarrow>
        r \<in> subvals v \<or> (r = cycle_error \<and> PromiseRef p \<in> subvals v))
   \<and> (status (exec op s) q = Rejected r \<longrightarrow>
        status s q = Rejected r \<or> r \<in> forwarded s op
        \<or> (r = cycle_error \<and> PromiseRef q \<in> forwarded s op))"
proof (intro conjI impI)
  assume a: "status s p = Pending"
  show e: "resolve_fn s p (PromiseRef p) = transition s p (Rejected cycle_error)"
    using a by (simp add: resolve_fn_def unpack_self)
  show "status (resolve_fn s p (PromiseRef p)) p = Rejected cycle_error"
    using a unfolding e by (simp add: status_transition)
  then show "status (exec (OpResolve p (PromiseRef p)) s) p = Rejected cycle_error"
    by simp
next
  assume "status s p = Pending \<and> status (resolve_fn s p v) p = Rejected r"
  then show "r \<in> subvals v \<or> (r = cycle_error \<and> PromiseRef p \<in> subvals v)"
    using rejection_origin [of s p v r] by (simp add: resolve_fn_def)
next
  assume "status (exec op s) q = Rejected r"
  then show "status s q = Rejected r \<or> r \<in> forwarded s op
        \<or> (r = cycle_error \<and> PromiseRef q \<in> forwarded s op)"
    using origin_exec [of s op] unfolding origin_ok_def by blast
qed

theorem self_resolution_rejects_witness:
  "status (resolve_fn two_deferreds 0 (PromiseRef 0)) 0
     = Rejected (TypeError ''Chaining cycle detected for promise'')
   \<and> status (resolve_fn two_deferreds 0 (Obj TObject 5 (ThenFn [CallReject (Str ''no'')]))) 0
     = Rejected (Str ''no'')
   \<and> Str ''no'' \<in> subvals (Obj TObject 5 (ThenFn [CallReject (Str ''no'')]))
   \<and> status (exec (OpResolve 0 (PromiseRef 0)) two_deferreds) 0 = Rejected cycle_error
   \<and> PromiseRef 0 \<in> forwarded two_deferreds (OpResolve 0 (PromiseRef 0))"
proof -
  have a: "status (resolve_fn two_deferreds 0 (Obj TObject 5 (ThenFn [CallReject (Str ''no'')]))) 0
             = Rejected (Str ''no'')"
    by (simp add: resolve_fn_def unpack_then_fn call_reject_def two_deferreds_fields
        status_transition)
  have b: "status (resolve_fn two_deferreds 0 (PromiseRef 0)) 0 = Rejected cycle_error
           \<and> status (exec (OpResolve 0 (PromiseRef 0)) two_deferreds) 0 = Rejected cycle_error"
    using self_resolution_rejects [of two_deferreds 0 Undefined Undefined OpTimer 0]
          two_deferreds_fields(2) [of 0]
    by blast
  have "Str ''no'' \<in> subvals (Obj TObject 5 (ThenFn [CallReject (Str ''no'')]))
        \<or> (Str ''no'' = cycle_error
            \<and> PromiseRef 0 \<in> subvals (Obj TObject 5 (ThenFn [CallReject (Str ''no'')])))"
    using self_resolution_rejects
            [of two_deferreds 0 "Obj TObject 5 (ThenFn [CallReject (Str ''no'')])" "Str ''no''"
                OpTimer 0]
          a two_deferreds_fields(2) [of 0]
    by blast
  then have c: "Str ''no'' \<in> subvals (Obj TObject 5 (ThenFn [CallReject (Str ''no'')]))"
    by (simp add: cycle_error_def)
  have "status two_deferreds 0 = Rejected cycle_error
        \<or> cycle_error \<in> forwarded two_deferreds (OpResolve 0 (PromiseRef 0))
        \<or> (cycle_error = cycle_error \<and> PromiseRef 0 \<in> forwarded two_deferreds (OpResolve 0 (PromiseRef 0)))"
    using self_resolution_rejects
            [of two_deferreds 0 Undefined cycle_error "OpResolve 0 (PromiseRef 0)" 0] b
    by blast
  then have d: "PromiseRef 0 \<in> forwarded two_deferreds (OpResolve 0 (PromiseRef 0))"
    by (simp add: two_deferreds_fields cycle_error_def)
  show ?thesis using a b c d by (simp add: cycle_error_def)
qed

section \<open>The latch around a foreign \<open>then\<close>\<close>

text \<open>
  Claim C4. The resolution procedure calls a callable \<^verbatim>\<open>then\<close> of a foreign object with two
  functions that share a new latch. A call of either function while the latch is set changes
  nothing; a call of either while it is not set sets it; and once set, no operation ever
  clears it. So of any number of calls of the two functions, during the call of
  \<^verbatim>\<open>then\<close> or later from a timer, only the first has an effect: a script run with its
  latch set leaves nothing behind but the timers it asks for. If \<^verbatim>\<open>then\<close> throws before
  either function was called, the promise makes the transition to rejected with the thrown
  value; if it throws after one was called, the result is that of the same script ending
  where it throws: the throw is ignored.
\<close>

theorem latch_first_call_only:
  "(status s p = Pending \<longrightarrow>
      unpack s p (Obj t i (ThenFn acts)) =
        (let s2 = fst (run_actions (snd (new_latch s)) (Latched (next_latch s) p) acts) in
         case thrown acts of
           None \<Rightarrow> s2
         | Some reason \<Rightarrow>
             if \<not> called s2 (next_latch s)
             then transition (set_called (next_latch s) s2) p (Rejected reason)
             else s2))
   \<and> (called s l \<longrightarrow> call_resolve s (Latched l p) v = s \<and> call_reject s (Latched l p) r = s)
   \<and> (l < next_latch s \<longrightarrow>
        called (call_resolve s (Latched l p) v) l \<and> called (call_reject s (Latched l p) r) l)
   \<and> (l < next_latch s \<and> called s l \<longrightarrow> called (exec op s) l)
   \<and> (called s l \<longrightarrow>
        fst (run_actions s (Latched l p) acts)
          = s\<lparr>timers := timers s @ later_timers (Latched l p) acts\<rparr>)
   \<and> (status s p = Pending \<and> \<not> fires acts \<and> thrown acts = Some e \<longrightarrow>
        status (unpack s p (Obj t i (ThenFn acts))) p = Rejected e)
   \<and> (status s p = Pending \<and> fires acts \<longrightarrow>
        unpack s p (Obj t i (ThenFn acts)) = unpack s p (Obj t i (ThenFn (before_throw acts))))"
proof (intro conjI impI)
  assume "status s p = Pending"
  then show "unpack s p (Obj t i (ThenFn acts)) =
        (let s2 = fst (run_actions (snd (new_latch s)) (Latched (next_latch s) p) acts) in
         case thrown acts of
           None \<Rightarrow> s2
         | Some reason \<Rightarrow>
             if \<not> called s2 (next_latch s)
             then transition (set_called (next_latch s) s2) p (Rejected reason)
             else s2)"
    by (rule unpack_then_fn)
next
  assume "called s l"
  then show "call_resolve s (Latched l p) v = s" "call_reject s (Latched l p) r = s"
    by (simp_all add: call_reject_def)
next
  assume "l < next_latch s"
  then show "called (call_resolve s (Latched l p) v) l" "called (call_reject s (Latched l p) r) l"
    using call_resolve_sets [of l s p v] call_reject_sets [of l s p r] by simp_all
next
  assume "l < next_latch s \<and> called s l"
  then show "called (exec op s) l" using latch_exec [of l s op] by simp
next
  assume "called s l"
  then show "fst (run_actions s (Latched l p) acts)
               = s\<lparr>timers := timers s @ later_timers (Latched l p) acts\<rparr>"
    by (simp add: run_actions_called)
next
  assume "status s p = Pending \<and> \<not> fires acts \<and> thrown acts = Some e"
  then show "status (unpack s p (Obj t i (ThenFn acts))) p = Rejected e"
    by (simp add: throw_before_call)
next
  assume "status s p = Pending \<and> fires acts"
  then show "unpack s p (Obj t i (ThenFn acts)) = unpack s p (Obj t i (ThenFn (before_throw acts)))"
    by (simp add: throw_after_call)
qed

theorem latch_first_call_only_witness:
  "status (unpack two_deferreds 0
      (Obj TObject 5 (ThenFn [Later [CallResolve (Num 1)], Throw (Str ''x''), CallResolve (Num 7)]))) 0
     = Rejected (Str ''x'')
   \<and> unpack two_deferreds 0
        (Obj TObject 5 (ThenFn [CallResolve (Num 7), CallReject (Str ''no''), Throw (Str ''x'')]))
     = unpack two_deferreds 0
        (Obj TObject 5 (ThenFn [CallResolve (Num 7), CallReject (Str ''no'')]))
   \<and> call_resolve (set_called 0 (snd (new_latch two_deferreds))) (Latched 0 0) (Num 9)
     = set_called 0 (snd (new_latch two_deferreds))
   \<and> call_reject (set_called 0 (snd (new_latch two_deferreds))) (Latched 0 0) (Str ''no'')
     = set_called 0 (snd (new_latch two_deferreds))
   \<and> called (call_resolve (snd (new_latch two_deferreds)) (Latched 0 0) (Num 7)) 0
   \<and> called (exec OpTimer (set_called 0 (snd (new_latch two_deferreds)))) 0"
proof -
  let ?s = "set_called 0 (snd (new_latch two_deferreds))"
  have pend: "status two_deferreds 0 = Pending" by (simp add: two_deferreds_fields)
  have c: "called ?s 0" by simp
  have n: "0 < next_latch (snd (new_latch two_deferreds))" by simp
  have n': "0 < next_latch ?s \<and> called ?s 0" by simp
  have f1: "\<not> fires [Later [CallResolve (Num 1)], Throw (Str ''x''), CallResolve (Num 7)]"
    by simp
  have t1: "thrown [Later [CallResolve (Num 1)], Throw (Str ''x''), CallResolve (Num 7)]
              = Some (Str ''x'')"
    by simp
  have f2: "fires [CallResolve (Num 7), CallReject (Str ''no''), Throw (Str ''x'')]"
    by simp
  have b2: "before_throw [CallResolve (Num 7), CallReject (Str ''no''), Throw (Str ''x'')]
              = [CallResolve (Num 7), CallReject (Str ''no'')]"
    by simp
  have 1: "status (unpack two_deferreds 0
      (Obj TObject 5 (ThenFn [Later [CallResolve (Num 1)], Throw (Str ''x''), CallResolve (Num 7)]))) 0
     = Rejected (Str ''x'')"
    using latch_first_call_only
          [of two_deferreds 0 TObject 5
             "[Later [CallResolve (Num 1)], Throw (Str ''x''), CallResolve (Num 7)]"
             0 "Num 9" "Str ''no''" OpTimer "Str ''x''"] pend f1 t1
    by blast
  have 2: "unpack two_deferreds 0
        (Obj TObject 5 (ThenFn [CallResolve (Num 7), CallReject (Str ''no''), Throw (Str ''x'')]))
     = unpack two_deferreds 0
        (Obj TObject 5 (ThenFn [CallResolve (Num 7), CallReject (Str ''no'')]))"
    using latch_first_call_only
          [of two_deferreds 0 TObject 5
             "[CallResolve (Num 7), CallReject (Str ''no''), Throw (Str ''x'')]"
             0 "Num 9" "Str ''no''" OpTimer "Str ''x''"] pend f2 b2
    by metis
  have 3: "call_resolve ?s (Latched 0 0) (Num 9) = ?s \<and> call_reject ?s (Latched 0 0) (Str ''no'') = ?s
      \<and> called (exec OpTimer ?s) 0"
    using latch_first_call_only
          [of ?s 0 TObject 5 "[]" 0 "Num 9" "Str ''no''" OpTimer "Str ''x''"] c n'
    by blast
  have 4: "called (call_resolve (snd (new_latch two_deferreds)) (Latched 0 0) (Num 7)) 0"
    using latch_first_call_only
          [of "snd (new_latch two_deferreds)" 0 TObject 5 "[]" 0 "Num 7" "Str ''no''" OpTimer "Str ''x''"] n
    by blast
  show ?thesis using 1 2 3 4 by blast
qed

section \<open>The constructor and what the public operations throw\<close>

text \<open>
  Claim C8 says that the constructor throws a \<^verbatim>\<open>TypeError\<close> whenever its argument is not
  callable. Lines 66-68 mean to, but the message of the error is built from the argument
  itself: for an argument that is not a function and whose conversion to a string throws,
  as \<^verbatim>\<open>{ toString() { throw "boom" } }\<close> does, the constructor throws what the conversion
  threw, here the string \<^verbatim>\<open>"boom"\<close>, and makes no \<^verbatim>\<open>TypeError\<close>.
\<close>

theorem constructor_throws_conversion_error:
  "new_promise (NotAFunction (ConversionThrows (Str ''boom''))) init_world = Inl (Str ''boom'')"
  by (simp add: new_promise_NotAFunction)

text \<open>
  The rest of what claim C8 says holds, and so does its first part for an argument that
  converts to a string. The constructor throws exactly when its argument is not a function,
  and then no promise is made; for an argument that converts to a text it throws the
  \<^verbatim>\<open>TypeError\<close> with that text. Given a function, it returns the new promise, and by then
  the executor has been called exactly once: the log of the world it returns is the log it
  started from, then the call of the executor of the new promise, then events among which
  that call does not occur again. If the executor throws, the promise is rejected with the
  thrown value when it is still pending, and the throw changes nothing when the executor has
  settled it. The other public operations (\<^verbatim>\<open>then\<close>, \<^verbatim>\<open>catch\<close> and the two static
  factories) always return a promise; the two settling functions return a world, they have
  no exception to throw.
\<close>

lemma constructor_contract:
  "((\<exists>e. new_promise ex s = Inl e) \<longleftrightarrow> (\<exists>conv. ex = NotAFunction conv))
   \<and> new_promise (NotAFunction (Shown shown)) s = Inl (TypeError (shown @ '' is not a function''))
   \<and> new_promise (NotAFunction (ConversionThrows e)) s = Inl e
   \<and> (\<exists>s'. new_promise (ExecutorFn acts) s = Inr (next_id s, s')
         \<and> (\<exists>tr'. trace s' = trace s @ ExecutorCalled (next_id s) # tr'
                   \<and> ExecutorCalled (next_id s) \<notin> set tr')
         \<and> s' = (let s2 = fst (run_actions (log_event (ExecutorCalled (next_id s)) (snd (alloc s)))
                              (Own (next_id s)) acts)
                  in case thrown acts of
                       None \<Rightarrow> s2
                     | Some e \<Rightarrow>
                         if status s2 (next_id s) = Pending
                         then transition s2 (next_id s) (Rejected e) else s2)
         \<and> status s' (next_id s)
             = (let st = status (fst (run_actions (log_event (ExecutorCalled (next_id s)) (snd (alloc s)))
                                       (Own (next_id s)) acts)) (next_id s)
                in case thrown acts of
                     None \<Rightarrow> st
                   | Some e \<Rightarrow> if st = Pending then Rejected e else st))
   \<and> (\<exists>out s'. then_op s p f g = Inr (out, s'))
   \<and> (\<exists>out s'. catch_op s p g = Inr (out, s'))
   \<and> (\<exists>out s'. promise_resolve v s = Inr (out, s'))
   \<and> (\<exists>out s'. promise_reject r s = Inr (out, s'))"
proof (intro conjI)
  show "(\<exists>e. new_promise ex s = Inl e) \<longleftrightarrow> (\<exists>conv. ex = NotAFunction conv)"
    by (cases ex) (simp_all add: new_promise_NotAFunction new_promise_ExecutorFn)
  show "new_promise (NotAFunction (Shown shown)) s = Inl (TypeError (shown @ '' is not a function''))"
    by (simp add: new_promise_NotAFunction)
  show "new_promise (NotAFunction (ConversionThrows e)) s = Inl e"
    by (simp add: new_promise_NotAFunction)
  show "\<exists>out s'. then_op s p f g = Inr (out, s')" by (rule then_op_Inr)
  show "\<exists>out s'. catch_op s p g = Inr (out, s')" unfolding catch_op_def by (rule then_op_Inr)
  show "\<exists>out s'. promise_resolve v s = Inr (out, s')"
    by (simp add: promise_resolve_def construct_ExecutorFn)
  show "\<exists>out s'. promise_reject r s = Inr (out, s')"
    by (simp add: promise_reject_def construct_ExecutorFn)
next
  let ?s2 = "fst (run_actions (log_event (ExecutorCalled (next_id s)) (snd (alloc s)))
                   (Own (next_id s)) acts)"
  obtain s' where n: "new_promise (ExecutorFn acts) s = Inr (next_id s, s')"
    by (simp add: new_promise_ExecutorFn)
  have 1: "\<exists>tr'. trace s' = trace s @ ExecutorCalled (next_id s) # tr'
                   \<and> ExecutorCalled (next_id s) \<notin> set tr'"
    using n by (rule executor_called_once)
  have 2: "s' = (let s2 = ?s2 in case thrown acts of
                       None \<Rightarrow> s2
                     | Some e \<Rightarrow>
                         if status s2 (next_id s) = Pending
                         then transition s2 (next_id s) (Rejected e) else s2)"
    using n by (auto simp: new_promise_ExecutorFn reject_fn_def Let_def split: option.splits)
  have 3: "status s' (next_id s)
             = (let st = status ?s2 (next_id s)
                in case thrown acts of
                     None \<Rightarrow> st
                   | Some e \<Rightarrow> if st = Pending then Rejected e else st)"
    unfolding 2 by (simp add: Let_def status_transition split: option.splits)
  show "\<exists>s'. new_promise (ExecutorFn acts) s = Inr (next_id s, s')
         \<and> (\<exists>tr'. trace s' = trace s @ ExecutorCalled (next_id s) # tr'
                   \<and> ExecutorCalled (next_id s) \<notin> set tr')
         \<and> s' = (let s2 = ?s2
                  in case thrown acts of
                       None \<Rightarrow> s2
                     | Some e \<Rightarrow>
                         if status s2 (next_id s) = Pending
                         then transition s2 (next_id s) (Rejected e) else s2)
         \<and> status s' (next_id s)
             = (let st = status ?s2 (next_id s)
                in case thrown acts of
                     None \<Rightarrow> st
                   | Some e \<Rightarrow> if st = Pending then Rejected e else st)"
    using n 1 2 3 by blast
qed

section \<open>Candidates without a callable \<open>then\<close>\<close>



section \<open>Every reaction runs once, later, and in order\<close>

text \<open>
  Claim C2 says that every entry ever appended to either listener array is invoked exactly
  once. \<^verbatim>\<open>then\<close> appends one entry to each array, and settling schedules the entries of
  one array only and empties both: the entry in the other array is dropped. Here a promise
  is made, \<^verbatim>\<open>then()\<close> appends \<^verbatim>\<open>resolve\<close> and \<^verbatim>\<open>reject\<close> of the derived promise to its
  two arrays, the promise is fulfilled and the queue is run: the log holds one invocation,
  of the fulfilment listener; the rejection listener was appended, was never invoked, and is
  neither in an array nor in the queue any more.
\<close>

theorem dropped_listener_counterexample:
  "trace chained_done =
     [ExecutorCalled 0, ExecutorCalled 1,
      Attached 0 KFulfilled (LResolve 1), Attached 0 KRejected (LReject 1),
      Invoked 0 KFulfilled (LResolve 1) (Num 1)]
   \<and> rejectedListeners (heap chained_done 0) = []
   \<and> microtasks chained_done = [] \<and> timers chained_done = []"
  by (simp add: chained_done_fields)

text \<open>
  Claim C2, amended. In every world reached from the first one by operations: while a
  promise is pending, its arrays hold what was appended, in order, and nothing of it has
  been invoked or scheduled; once it is settled, the listeners of the kind of its settlement
  that were invoked, followed by those still in the microtask queue, are exactly the
  listeners appended to the array of that kind, in the order they were appended, each
  invoked with the payload, and no listener of the other kind is ever invoked or scheduled.
  No operation but the host's microtask step invokes a listener, so none runs inside the
  call that attaches it or settles the promise; and the task at place \<open>i\<close> of the queue
  has been run after \<open>i + 1\<close> microtask steps.
\<close>

theorem reactions_once_in_order:
  "wf init_world
   \<and> (wf s \<and> op_ok s op \<longrightarrow> wf (exec op s))
   \<and> (wf s \<and> status s p = Pending \<longrightarrow>
        fulfilledListeners (heap s p) = attached p KFulfilled (trace s)
        \<and> rejectedListeners (heap s p) = attached p KRejected (trace s)
        \<and> invoked p k (trace s) = [] \<and> queued p k (microtasks s) = [])
   \<and> (wf s \<and> status s p = Fulfilled v \<longrightarrow>
        invoked p KFulfilled (trace s) @ queued p KFulfilled (microtasks s)
          = attached p KFulfilled (trace s)
        \<and> set (payloads p KFulfilled (trace s)) \<subseteq> {v}
        \<and> invoked p KRejected (trace s) = [] \<and> queued p KRejected (microtasks s) = [])
   \<and> (wf s \<and> status s p = Rejected v \<longrightarrow>
        invoked p KRejected (trace s) @ queued p KRejected (microtasks s)
          = attached p KRejected (trace s)
        \<and> set (payloads p KRejected (trace s)) \<subseteq> {v}
        \<and> invoked p KFulfilled (trace s) = [] \<and> queued p KFulfilled (microtasks s) = [])
   \<and> (op \<noteq> OpMicrotask \<longrightarrow> invocations (trace (exec op s)) = invocations (trace s))
   \<and> (i < length (microtasks s) \<and> microtasks s ! i = Task p k l \<longrightarrow>
        (\<exists>tr1 x tr2. trace (run_microtasks (Suc i) s) = trace s @ tr1 @ Invoked p k l x # tr2))"
proof (intro conjI impI)
  show "wf init_world" by (rule wf_init)
next
  assume "wf s \<and> op_ok s op"
  then show "wf (exec op s)" using wf_exec by blast
next
  assume a: "wf s \<and> status s p = Pending"
  then have "pending_inv s p" using reaction_invD(1) [of s p] by (simp add: wf_def)
  then show "fulfilledListeners (heap s p) = attached p KFulfilled (trace s)"
    "rejectedListeners (heap s p) = attached p KRejected (trace s)"
    "invoked p k (trace s) = []" "queued p k (microtasks s) = []"
    by (simp_all add: pending_inv_def)
next
  assume a: "wf s \<and> status s p = Fulfilled v"
  then have "settled_inv s p KFulfilled v" using reaction_invD(2) [of s p v] by (simp add: wf_def)
  then show "invoked p KFulfilled (trace s) @ queued p KFulfilled (microtasks s)
          = attached p KFulfilled (trace s)"
    "set (payloads p KFulfilled (trace s)) \<subseteq> {v}"
    "invoked p KRejected (trace s) = []" "queued p KRejected (microtasks s) = []"
    by (simp_all add: settled_inv_def)
next
  assume a: "wf s \<and> status s p = Rejected v"
  then have "settled_inv s p KRejected v" using reaction_invD(3) [of s p v] by (simp add: wf_def)
  then show "invoked p KRejected (trace s) @ queued p KRejected (microtasks s)
          = attached p KRejected (trace s)"
    "set (payloads p KRejected (trace s)) \<subseteq> {v}"
    "invoked p KFulfilled (trace s) = []" "queued p KFulfilled (microtasks s) = []"
    by (simp_all add: settled_inv_def)
next
  assume "op \<noteq> OpMicrotask"
  then show "invocations (trace (exec op s)) = invocations (trace s)" by (rule invocations_exec)
next
  assume "i < length (microtasks s) \<and> microtasks s ! i = Task p k l"
  then show "\<exists>tr1 x tr2. trace (run_microtasks (Suc i) s) = trace s @ tr1 @ Invoked p k l x # tr2"
    using eventually_invoked [of i s p k l] by simp
qed

theorem reactions_once_in_order_witness:
  "wf chained_settled
   \<and> invoked 0 KFulfilled (trace chained_settled) @ queued 0 KFulfilled (microtasks chained_settled)
       = attached 0 KFulfilled (trace chained_settled)
   \<and> invoked 0 KRejected (trace chained_settled) = []
   \<and> fulfilledListeners (heap chained 0) = attached 0 KFulfilled (trace chained)
   \<and> invocations (trace chained_settled) = invocations (trace chained)
   \<and> (\<exists>tr1 x tr2. trace (run_microtasks (Suc 0) chained_settled)
         = trace chained_settled @ tr1 @ Invoked 0 KFulfilled (LResolve 1) x # tr2)"
proof -
  let ?d = "exec (OpNew (ExecutorFn [])) init_world"
  have 1: "wf ?d"
    using reactions_once_in_order [of init_world "OpNew (ExecutorFn [])" 0 KFulfilled Undefined 0 "LResolve 1"]
    by simp
  have 2: "wf chained"
    using reactions_once_in_order
            [of ?d "OpThen 0 (NonFunction Undefined) (NonFunction Undefined)" 0 KFulfilled Undefined 0 "LResolve 1"] 1
    unfolding chained_def by simp
  have 3: "wf chained_settled"
    using reactions_once_in_order [of chained "OpResolve 0 (Num 1)" 0 KFulfilled Undefined 0 "LResolve 1"] 2
    unfolding chained_settled_def by (simp add: chained_fields)
  have 4: "fulfilledListeners (heap chained 0) = attached 0 KFulfilled (trace chained)"
    using reactions_once_in_order [of chained "OpResolve 0 (Num 1)" 0 KFulfilled Undefined 0 "LResolve 1"] 2
    by (simp add: chained_fields)
  have 5: "invocations (trace chained_settled) = invocations (trace chained)"
    using reactions_once_in_order [of chained "OpResolve 0 (Num 1)" 0 KFulfilled Undefined 0 "LResolve 1"]
    unfolding chained_settled_def by simp
  have 6: "invoked 0 KFulfilled (trace chained_settled) @ queued 0 KFulfilled (microtasks chained_settled)
            = attached 0 KFulfilled (trace chained_settled)
          \<and> invoked 0 KRejected (trace chained_settled) = []
          \<and> (\<exists>tr1 x tr2. trace (run_microtasks (Suc 0) chained_settled)
                = trace chained_settled @ tr1 @ Invoked 0 KFulfilled (LResolve 1) x # tr2)"
    using reactions_once_in_order
            [of chained_settled OpMicrotask 0 KFulfilled "Num 1" 0 "LResolve 1"] 3
    by (simp add: chained_settled_fields)
  show ?thesis using 3 4 5 6 by blast
qed

section \<open>\<^verbatim>\<open>then\<close> without callbacks forwards the settlement\<close>

text \<open>
  Claim C7 says that \<^verbatim>\<open>then\<close> without callbacks on a settled promise gives a promise that
  settles with the same value and the same kind, for every settled source. The listener
  that \<^verbatim>\<open>then\<close> appends for a missing \<^verbatim>\<open>onfulfilled\<close> is the \<^verbatim>\<open>resolve\<close> of the new
  promise (line 271), which runs the resolution procedure on the value and so reads its
  \<^verbatim>\<open>then\<close> again. Here a promise is fulfilled with an object that has no \<^verbatim>\<open>then\<close>, user
  code then gives the object a \<^verbatim>\<open>then\<close> that calls its second argument, \<^verbatim>\<open>then()\<close> is
  called on the promise and the queue is run: the source is fulfilled with the object, and
  the new promise is rejected.
\<close>

theorem passthrough_reread_counterexample:
  "status holder 0 = Fulfilled (Obj TObject 5 ThenAbsent)
   \<and> status hijacked 0 = Fulfilled (Obj TObject 5 hijack)
   \<and> status hijacked_then 0 = Fulfilled (Obj TObject 5 hijack)
   \<and> status hijacked_then 1 = Rejected (Str ''hijacked'')"
  by (simp add: holder_fields hijacked_fields hijacked_then_fields)

text \<open>
  Claim C7, amended: the new promise takes the state of the source provided that, at the
  steps of the microtask queue, the source holds a reason, or a value that has no callable
  \<^verbatim>\<open>then\<close> and whose \<^verbatim>\<open>then\<close> does not throw when read. In a world reached from the
  first one by operations and assignments, \<^verbatim>\<open>then\<close> called on an existing promise \<open>src\<close>
  with two handlers that are not functions (omitted, or any other value; \<^verbatim>\<open>catch\<close> with
  such a handler is the same call) returns a new promise that is pending. If \<open>src\<close> is
  settled at the call and holds a reason or such a value, the new promise has the state of
  \<open>src\<close>, the same kind with the same value or reason, once the tasks queued before the
  call and one more have run, and keeps it as the queue runs on. Whatever operations and
  assignments follow the call (no operation can hold the functions that settle the new
  promise, which \<^verbatim>\<open>then\<close> keeps to itself), with no step of the queue taken while \<open>src\<close>
  holds a value that is not such: from any world in which \<open>src\<close> is settled and holds a
  reason or such a value, running the microtask queue brings the new promise to the state of
  \<open>src\<close> after finitely many steps, for good. And no operation makes a promise hold a
  value that is not such: only an assignment can.
\<close>

theorem passthrough_then_forwards:
  assumes "reachable s" and "src < next_id s"
  shows "\<exists>s1. then_op s src (NonFunction a) (NonFunction b) = Inr (next_id s, s1)
     \<and> status s1 (next_id s) = Pending
     \<and> (status s src \<noteq> Pending \<and> forwards (status s src) \<longrightarrow>
          (\<forall>m. length (microtasks s) < m \<longrightarrow>
             status (run_microtasks m s1) (next_id s) = status s src))
     \<and> (\<forall>w. proceeds (next_id s) src s1 w \<and> status w src \<noteq> Pending \<and> forwards (status w src) \<longrightarrow>
          (\<exists>n. \<forall>m \<ge> n. status (run_microtasks m w) (next_id s) = status w src))
     \<and> (forwards (status s p) \<longrightarrow> forwards (status (exec op s) p))"
proof -
  let ?n = "next_id s"
  let ?s1 = "world_after s (then_op s src (NonFunction a) (NonFunction b))"
  have e: "then_op s src (NonFunction a) (NonFunction b) = Inr (?n, ?s1)"
    by (simp add: then_op_eq world_after_def)
  have p: "status ?s1 ?n = Pending" by (simp add: status_then_op)
  have f: "follows ?n src (LResolve ?n) (LReject ?n) ?s1"
    using assms by (rule follows_after_then)
  have now: "status (run_microtasks m ?s1) ?n = status s src"
    if "status s src \<noteq> Pending \<and> forwards (status s src)" and "length (microtasks s) < m" for m
    using assms(1) that by (intro passthrough_now) simp_all
  have later: "\<exists>n. \<forall>m \<ge> n. status (run_microtasks m w) ?n = status w src"
    if "proceeds ?n src ?s1 w \<and> status w src \<noteq> Pending \<and> forwards (status w src)" for w
  proof -
    have "follows ?n src (LResolve ?n) (LReject ?n) w" using that f follows_proceeds by blast
    then show ?thesis using that by (intro eventually_adopted) simp_all
  qed
  have keep: "forwards (status (exec op s) p)" if "forwards (status s p)"
    using that by (rule forwards_exec)
  show ?thesis
  proof (rule exI [of _ ?s1], intro conjI allI impI)
    show "then_op s src (NonFunction a) (NonFunction b) = Inr (?n, ?s1)" by (rule e)
    show "status ?s1 ?n = Pending" by (rule p)
    show "\<And>m. status s src \<noteq> Pending \<and> forwards (status s src) \<Longrightarrow> length (microtasks s) < m \<Longrightarrow>
            status (run_microtasks m ?s1) ?n = status s src"
      by (rule now)
    show "\<And>w. proceeds ?n src ?s1 w \<and> status w src \<noteq> Pending \<and> forwards (status w src) \<Longrightarrow>
            \<exists>n. \<forall>m \<ge> n. status (run_microtasks m w) ?n = status w src"
      by (rule later)
    show "forwards (status s p) \<Longrightarrow> forwards (status (exec op s) p)" by (rule keep)
  qed
qed

theorem passthrough_then_forwards_witness:
  "status (world_after chained_settled
             (then_op chained_settled 0 (NonFunction Undefined) (NonFunction Undefined))) 2 = Pending
   \<and> status (run_microtasks 2 (world_after chained_settled
               (then_op chained_settled 0 (NonFunction Undefined) (NonFunction Undefined)))) 2
       = Fulfilled (Num 1)
   \<and> (\<exists>n. \<forall>m \<ge> n.
         status (run_microtasks m (assign_then 5 hijack (world_after chained_settled
                   (then_op chained_settled 0 (NonFunction Undefined) (NonFunction Undefined))))) 2
           = Fulfilled (Num 1))"
proof -
  let ?u = "world_after chained_settled
              (then_op chained_settled 0 (NonFunction Undefined) (NonFunction Undefined))"
  obtain s1 where s1: "then_op chained_settled 0 (NonFunction Undefined) (NonFunction Undefined)
                         = Inr (2, s1)"
    and p: "status s1 2 = Pending"
    and n: "\<forall>m. 1 < m \<longrightarrow> status (run_microtasks m s1) 2 = Fulfilled (Num 1)"
    and l: "\<forall>w. proceeds 2 0 s1 w \<and> status w 0 \<noteq> Pending \<and> forwards (status w 0) \<longrightarrow>
              (\<exists>n. \<forall>m \<ge> n. status (run_microtasks m w) 2 = status w 0)"
    using passthrough_then_forwards [OF reachable_chained_settled, of 0 Undefined Undefined 0 OpTimer]
    by (auto simp: chained_settled_fields plain_def)
  have u: "?u = s1" using s1 by (simp add: world_after_def)
  have "status (exec (OpThen 0 (NonFunction Undefined) (NonFunction Undefined)) chained_settled) 0
          = Fulfilled (Num 1)"
    using settled_exec [of 0 chained_settled "Fulfilled (Num 1)"
            "OpThen 0 (NonFunction Undefined) (NonFunction Undefined)"]
    by (simp add: chained_settled_fields)
  then have st: "status s1 0 = Fulfilled (Num 1)" using u by simp
  have a: "status (assign_then 5 hijack s1) 0 = Fulfilled (Num 1)" using st by simp
  have "proceeds 2 0 s1 (assign_then 5 hijack s1)"
    by (rule proceeds_assign [OF proceeds_refl])
  moreover have "status (assign_then 5 hijack s1) 0 \<noteq> Pending
                   \<and> forwards (status (assign_then 5 hijack s1) 0)"
    unfolding a by (simp add: plain_def)
  ultimately have "\<exists>n. \<forall>m \<ge> n. status (run_microtasks m (assign_then 5 hijack s1)) 2
                = status (assign_then 5 hijack s1) 0"
    using l by blast
  then have "\<exists>n. \<forall>m \<ge> n. status (run_microtasks m (assign_then 5 hijack s1)) 2
                = Fulfilled (Num 1)"
    unfolding a .
  then show ?thesis unfolding u using p n by simp
qed

section \<open>Resolving with a promise or a thenable adopts its outcome\<close>




section \<open>The draft module against the final implementation\<close>




end
